theory Spec2Isabelle
  imports Complex_Main
begin

section \<open>Data model\<close>

text \<open>
  JavaScript numbers are modelled as rationals: the code under study only copies them and
  compares them with decimal literals (\<open>0.8\<close>, \<open>0.6\<close>, \<open>0.4\<close>); it does no arithmetic on them.
\<close>

type_synonym number = rat

text \<open>
  A JavaScript string is a sequence of UTF-16 code units. A code unit is modelled as a
  natural number (the code units are the numbers below 65536; nothing below depends on the
  bound), a string as the list of its code units. \<open>u\<close> embeds a literal of ASCII
  characters: each of its characters is one code unit, the character's code.
\<close>

type_synonym code_unit = nat
type_synonym ustring = "code_unit list"

definition u :: "string \<Rightarrow> ustring" where
  "u s = map of_char s"

text \<open>
  The value \<open>JSON.parse\<close> produces. An object is the list of its own properties, each key
  once. \<open>JSON.parse\<close> itself is a platform function and is a parameter of the model
  (\<open>Some v\<close> for the value parsed, \<open>None\<close> for a \<open>SyntaxError\<close>).
\<close>

datatype json =
    JNull
  | JBool bool
  | JNum number
  | JStr ustring
  | JArr "json list"
  | JObj "(ustring \<times> json) list"

type_synonym json_parser = "ustring \<Rightarrow> json option"

text \<open>Interface \<open>SequentialThought\<close> of \<open>sequential-thinking.ts\<close>. The optional members are
  never validated, so each holds whatever JSON value the reply gave it.\<close>

record SequentialThought =
  thought :: ustring
  next_thought_needed :: bool
  thought_number :: number
  total_thoughts :: number
  is_revision :: "json option"
  revises_thought :: "json option"
  branch_from_thought :: "json option"
  branch_id :: "json option"
  needs_more_thoughts :: "json option"

text \<open>
  What one \<open>axios.post\<close> to the completion endpoint comes back with.
  \<^item> \<open>AxiosFailure None\<close>: an axios error without a response (a network error);
    \<open>AxiosFailure (Some (status, d))\<close>: an axios error with a response (a non-2xx status),
    where \<open>d\<close> is \<open>None\<close> when \<open>response.data\<close> is falsy and otherwise the text
    \<open>JSON.stringify\<close> gives for it.
  \<^item> \<open>OtherFailure s\<close>: any other exception raised before the content is read; \<open>s\<close> is
    \<open>String(error)\<close>.
  \<^item> \<open>NoChoices\<close>: a response whose \<open>data.choices\<close> is missing or empty.
  \<^item> \<open>Choice c\<close>: a response with \<open>choices[0].message.content\<close>, \<open>c\<close> being that content as
    a string (for a content that is not a string, its \<open>String(content)\<close>, which is also what
    \<open>JSON.parse\<close> reads).
\<close>

datatype api_reply =
    AxiosFailure "(nat \<times> ustring option) option"
  | OtherFailure ustring
  | NoChoices
  | Choice ustring

text \<open>A thrown \<open>Error\<close>, identified by its message.\<close>

datatype error = Error ustring

section \<open>The sequential reasoning engine (\<open>src/tools/sequential-thinking.ts\<close>)\<close>

subsection \<open>Template-literal helpers\<close>

definition digit_char :: "nat \<Rightarrow> code_unit" where
  "digit_char d = u ''0123456789'' ! d"

fun show_nat :: "nat \<Rightarrow> ustring" where
  "show_nat n = (if n < 10 then [digit_char n] else show_nat (n div 10) @ [digit_char (n mod 10)])"

declare show_nat.simps [simp del]

text \<open>\<open>${axiosError.response?.status}\<close>\<close>

definition show_status :: "(nat \<times> ustring option) option \<Rightarrow> ustring" where
  "show_status r = (case r of None \<Rightarrow> u ''undefined'' | Some (status, d) \<Rightarrow> show_nat status)"

text \<open>\<open>JSON.stringify(axiosError.response?.data || {})\<close>\<close>

definition show_data :: "(nat \<times> ustring option) option \<Rightarrow> ustring" where
  "show_data r = (case r of Some (status, Some d) \<Rightarrow> d | _ \<Rightarrow> u ''{}'')"

subsection \<open>\<open>getNextThought\<close>\<close>

text \<open>\<open>typeof v.k\<close> for the four required members. Reading a member of \<open>null\<close> raises a
  \<open>TypeError\<close>; reading it from any other value that is not an object, or from an object
  without it, gives \<open>undefined\<close>. Both end in the same \<open>catch\<close>, so both are \<open>None\<close> here.\<close>

definition member :: "json \<Rightarrow> ustring \<Rightarrow> json option" where
  "member v k = (case v of JObj kvs \<Rightarrow> map_of kvs k | _ \<Rightarrow> None)"

text \<open>The inner \<open>try\<close> block: parse, validate the required fields, return the parsed object;
  \<open>None\<close> stands for the exception the inner \<open>catch\<close> receives.\<close>

definition validate :: "json \<Rightarrow> SequentialThought option" where
  "validate v =
     (case (member v (u ''thought''), member v (u ''next_thought_needed''),
            member v (u ''thought_number''), member v (u ''total_thoughts'')) of
        (Some (JStr t), Some (JBool b), Some (JNum n), Some (JNum m)) \<Rightarrow>
          Some \<lparr>thought = t, next_thought_needed = b, thought_number = n, total_thoughts = m,
                is_revision = member v (u ''is_revision''),
                revises_thought = member v (u ''revises_thought''),
                branch_from_thought = member v (u ''branch_from_thought''),
                branch_id = member v (u ''branch_id''),
                needs_more_thoughts = member v (u ''needs_more_thoughts'')\<rparr>
      | _ \<Rightarrow> None)"

definition parse_thought :: "json_parser \<Rightarrow> ustring \<Rightarrow> SequentialThought option" where
  "parse_thought parse content = (case parse content of None \<Rightarrow> None | Some v \<Rightarrow> validate v)"

text \<open>The object the inner \<open>catch\<close> returns.\<close>

definition fallback_thought :: "ustring \<Rightarrow> SequentialThought" where
  "fallback_thought content =
     \<lparr>thought = content, next_thought_needed = False, thought_number = 1, total_thoughts = 1,
      is_revision = None, revises_thought = None, branch_from_thought = None,
      branch_id = None, needs_more_thoughts = None\<rparr>"

definition getNextThought :: "json_parser \<Rightarrow> api_reply \<Rightarrow> error + SequentialThought" where
  "getNextThought parse reply =
     (case reply of
        Choice content \<Rightarrow>
          (case parse_thought parse content of
             Some t \<Rightarrow> Inr t
           | None \<Rightarrow> Inr (fallback_thought content))
      | NoChoices \<Rightarrow> Inl (Error (u ''Unknown error: Error: No response received from model''))
      | AxiosFailure r \<Rightarrow> Inl (Error ((u ''API error: '') @ show_status r @ u '' - '' @ show_data r))
      | OtherFailure s \<Rightarrow> Inl (Error ((u ''Unknown error: '') @ s)))"

subsection \<open>\<open>processWithSequentialThinking\<close>\<close>

text \<open>
  The endpoint is an oracle \<open>replies\<close>: \<open>replies k\<close> is what the \<open>k\<close>-th call of one run
  comes back with (\<open>k\<close> from 0). It stands for whatever the endpoint answers to the prompt
  of that call, so the text of the prompts is not part of the model. The loop's own state
  is the history \<open>thoughts\<close> and \<open>currentThought\<close>; the number of calls made so far is
  passed along and returned with the outcome.
\<close>

record engine_state =
  thoughts :: "SequentialThought list"
  currentThought :: SequentialThought

definition initial_state :: engine_state where
  "initial_state =
     \<lparr>thoughts = [],
      currentThought = \<lparr>thought = [], next_thought_needed = True, thought_number = 1,
        total_thoughts = 5, is_revision = None, revises_thought = None,
        branch_from_thought = None, branch_id = None, needs_more_thoughts = None\<rparr>\<rparr>"

text \<open>The \<open>while\<close> loop. It has no bound, so it is a partial function: \<open>None\<close> is a run that
  never returns.\<close>

partial_function (option) think_loop ::
  "json_parser \<Rightarrow> (nat \<Rightarrow> api_reply) \<Rightarrow> nat \<Rightarrow> engine_state \<Rightarrow> (nat \<times> (error + engine_state)) option"
where
  "think_loop parse replies n st =
     (if next_thought_needed (currentThought st) then
        (case getNextThought parse (replies n) of
           Inl e \<Rightarrow> Some (Suc n, Inl e)
         | Inr nextThought \<Rightarrow>
             think_loop parse replies (Suc n)
               \<lparr>thoughts = thoughts st @ [nextThought], currentThought = nextThought\<rparr>)
      else Some (n, Inr st))"

declare think_loop.simps [code]

text \<open>The result: how many calls were made, and the error thrown or the string returned.\<close>

definition processWithSequentialThinking ::
  "json_parser \<Rightarrow> (nat \<Rightarrow> api_reply) \<Rightarrow> (nat \<times> (error + ustring)) option" where
  "processWithSequentialThinking parse replies =
     (case think_loop parse replies 0 initial_state of
        None \<Rightarrow> None
      | Some (n, Inl e) \<Rightarrow> Some (n, Inl e)
      | Some (n, Inr st) \<Rightarrow> Some (n, Inr (thought (currentThought st))))"

section \<open>The hybrid matcher (\<open>hybridMatch\<close>)\<close>

subsection \<open>String functions used on the engine's answer\<close>

text \<open>
  \<open>String.prototype.toLowerCase\<close> follows the Unicode case mappings, which are a table of
  the platform and depend on context. Like \<open>JSON.parse\<close> it is a parameter \<open>lower\<close> of the
  model; nothing is assumed about it.
\<close>

type_synonym lower_case = "ustring \<Rightarrow> ustring"

text \<open>
  The line terminators of ECMAScript are LF, CR, U+2028 and U+2029. Its white space is TAB,
  VT, FF, U+FEFF and the space separators of Unicode: the space, U+00A0, U+1680, U+2000 to
  U+200A, U+202F, U+205F and U+3000. \<open>String.prototype.trim\<close> removes both kinds at both
  ends.
\<close>

definition line_terminator :: "code_unit \<Rightarrow> bool" where
  "line_terminator c = (c = 0x0A \<or> c = 0x0D \<or> c = 0x2028 \<or> c = 0x2029)"

definition white_space :: "code_unit \<Rightarrow> bool" where
  "white_space c =
     (c = 0x09 \<or> c = 0x0B \<or> c = 0x0C \<or> c = 0xFEFF \<or> c = 0x20 \<or> c = 0xA0 \<or> c = 0x1680
      \<or> (0x2000 \<le> c \<and> c \<le> 0x200A) \<or> c = 0x202F \<or> c = 0x205F \<or> c = 0x3000)"

definition is_space :: "code_unit \<Rightarrow> bool" where
  "is_space c = (white_space c \<or> line_terminator c)"

definition trim :: "ustring \<Rightarrow> ustring" where
  "trim s = rev (dropWhile is_space (rev (dropWhile is_space s)))"

text \<open>\<open>s.split("\n")[0]\<close>: the text before the first line feed (all of \<open>s\<close> if it has none).\<close>

definition first_line :: "ustring \<Rightarrow> ustring" where
  "first_line s = takeWhile (\<lambda>c. c \<noteq> 0x0A) s"

text \<open>
  \<open>s.replace(/^.*?: /, "")\<close>. The pattern has no flags: it is anchored at the start of the
  string, its \<open>.*?\<close> is lazy and \<open>.\<close> matches any code unit but a line terminator. So the
  match, if there is one, ends with the first \<open>": "\<close> of \<open>s\<close>, and there is one only if no
  line terminator comes before it. \<open>match_label s\<close> is the text after the match.
\<close>

fun match_label :: "ustring \<Rightarrow> ustring option" where
  "match_label (a # b # cs) =
     (if a = 0x3A \<and> b = 0x20 then Some cs
      else if line_terminator a then None
      else match_label (b # cs))"
| "match_label cs = None"

definition replace_label :: "ustring \<Rightarrow> ustring" where
  "replace_label s = (case match_label s of Some rest \<Rightarrow> rest | None \<Rightarrow> s)"

text \<open>\<open>String.prototype.includes\<close>.\<close>

fun starts_with :: "ustring \<Rightarrow> ustring \<Rightarrow> bool" where
  "starts_with s [] = True"
| "starts_with [] (p # ps) = False"
| "starts_with (c # cs) (p # ps) = (c = p \<and> starts_with cs ps)"

fun str_includes :: "ustring \<Rightarrow> ustring \<Rightarrow> bool" where
  "str_includes [] sub = (sub = [])"
| "str_includes (c # cs) sub = (starts_with (c # cs) sub \<or> str_includes cs sub)"

text \<open>Lines 95 to 98 of \<open>hybridMatch\<close>: the tool name read off the engine's answer.\<close>

definition extract_tool_name :: "lower_case \<Rightarrow> ustring \<Rightarrow> ustring" where
  "extract_tool_name lower sequentialResult =
     replace_label (first_line (trim (lower sequentialResult)))"

text \<open>The test of line 100 (an empty string is falsy).\<close>

definition looks_like_tool :: "ustring \<Rightarrow> bool" where
  "looks_like_tool toolName =
     (toolName \<noteq> [] \<and> (str_includes toolName (u ''generator'') \<or> str_includes toolName (u ''manager'')))"

subsection \<open>Results and collaborators\<close>

text \<open>\<open>MatchResult\<close>: \<open>matchedPattern\<close> is optional. \<open>EnhancedMatchResult\<close> extends it.\<close>

record MatchResult =
  toolName :: ustring
  confidence :: number
  matchedPattern :: "ustring option"

datatype match_method = Rule | Intent | Sequential

record EnhancedMatchResult = MatchResult +
  parameters :: "ustring \<rightharpoonup> ustring"
  matchMethod :: match_method
  requiresConfirmation :: bool

text \<open>The matching service and the intent service are imported modules whose code is not
  part of the source at hand; \<open>hybridMatch\<close> is modelled for any four such functions.\<close>

record services =
  matchRequest :: "ustring \<Rightarrow> MatchResult option"
  extractParameters :: "ustring \<Rightarrow> ustring \<Rightarrow> (ustring \<rightharpoonup> ustring)"
  detectIntent :: "ustring \<Rightarrow> MatchResult option"
  extractContextParameters :: "ustring \<Rightarrow> (ustring \<rightharpoonup> ustring)"

definition HIGH_CONFIDENCE :: number where "HIGH_CONFIDENCE = 0.8"
definition MEDIUM_CONFIDENCE :: number where "MEDIUM_CONFIDENCE = 0.6"
definition LOW_CONFIDENCE :: number where "LOW_CONFIDENCE = 0.4"

text \<open>What a call of \<open>hybridMatch\<close> does besides returning: which collaborators it invoked
  (the engine with the number of model calls it made) and what it logged.\<close>

datatype event =
    RuleMatcherCalled
  | IntentDetectorCalled
  | EngineCalled nat
  | ErrorLogged error

subsection \<open>\<open>hybridMatch\<close>\<close>

text \<open>\<open>performSequentialThinking\<close> builds the prompt and hands over to the engine.\<close>

definition performSequentialThinking ::
  "json_parser \<Rightarrow> (nat \<Rightarrow> api_reply) \<Rightarrow> (nat \<times> (error + ustring)) option" where
  "performSequentialThinking parse replies = processWithSequentialThinking parse replies"

text \<open>The final \<open>return\<close> of \<open>hybridMatch\<close>.\<close>

definition default_match :: "ustring \<Rightarrow> EnhancedMatchResult" where
  "default_match request =
     \<lparr>toolName = u ''research-manager'', confidence = 0.2, matchedPattern = Some (u ''fallback''),
      parameters = [u ''query'' \<mapsto> request], matchMethod = Sequential,
      requiresConfirmation = True\<rparr>"

text \<open>Step 3 and the final \<open>return\<close>: the \<open>try\<close> block around the engine. \<open>None\<close> is a call
  that never returns because the engine does not.\<close>

definition hybridMatch_step3 ::
  "services \<Rightarrow> json_parser \<Rightarrow> lower_case \<Rightarrow> (nat \<Rightarrow> api_reply) \<Rightarrow> ustring \<Rightarrow> event list
     \<Rightarrow> (event list \<times> EnhancedMatchResult) option" where
  "hybridMatch_step3 sv parse lower replies request evs =
     (case performSequentialThinking parse replies of
        None \<Rightarrow> None
      | Some (n, Inl e) \<Rightarrow> Some (evs @ [EngineCalled n, ErrorLogged e], default_match request)
      | Some (n, Inr sequentialResult) \<Rightarrow>
          (let tool = extract_tool_name lower sequentialResult in
           if looks_like_tool tool then
             Some (evs @ [EngineCalled n],
               \<lparr>toolName = tool, confidence = 0.5, matchedPattern = Some (u ''sequential_thinking''),
                parameters = extractContextParameters sv request, matchMethod = Sequential,
                requiresConfirmation = True\<rparr>)
           else Some (evs @ [EngineCalled n], default_match request)))"

text \<open>Step 2: the intent detector.\<close>

definition hybridMatch_step2 ::
  "services \<Rightarrow> json_parser \<Rightarrow> lower_case \<Rightarrow> (nat \<Rightarrow> api_reply) \<Rightarrow> ustring \<Rightarrow> event list
     \<Rightarrow> (event list \<times> EnhancedMatchResult) option" where
  "hybridMatch_step2 sv parse lower replies request evs =
     (case detectIntent sv request of
        Some intentResult \<Rightarrow>
          if confidence intentResult \<ge> LOW_CONFIDENCE then
            Some (evs @ [IntentDetectorCalled],
              \<lparr>toolName = toolName intentResult, confidence = confidence intentResult,
               matchedPattern = matchedPattern intentResult,
               parameters = extractContextParameters sv request, matchMethod = Intent,
               requiresConfirmation = (confidence intentResult < HIGH_CONFIDENCE)\<rparr>)
          else hybridMatch_step3 sv parse lower replies request (evs @ [IntentDetectorCalled])
      | None \<Rightarrow> hybridMatch_step3 sv parse lower replies request (evs @ [IntentDetectorCalled]))"

text \<open>Step 1 and the whole function. A \<open>matchedPattern\<close> that is missing or the empty string
  is falsy. The object spread copies the fields of the candidate into the result.\<close>

definition hybridMatch ::
  "services \<Rightarrow> json_parser \<Rightarrow> lower_case \<Rightarrow> (nat \<Rightarrow> api_reply) \<Rightarrow> ustring
     \<Rightarrow> (event list \<times> EnhancedMatchResult) option" where
  "hybridMatch sv parse lower replies request =
     (case matchRequest sv request of
        Some matchResult \<Rightarrow>
          if confidence matchResult \<ge> MEDIUM_CONFIDENCE then
            Some ([RuleMatcherCalled],
              \<lparr>toolName = toolName matchResult, confidence = confidence matchResult,
               matchedPattern = matchedPattern matchResult,
               parameters =
                 (case matchedPattern matchResult of
                    Some p \<Rightarrow>
                      if p \<noteq> [] \<and> p \<noteq> u ''description_match''
                      then extractParameters sv request p else Map.empty
                  | None \<Rightarrow> Map.empty),
               matchMethod = Rule,
               requiresConfirmation = (confidence matchResult < HIGH_CONFIDENCE)\<rparr>)
          else hybridMatch_step2 sv parse lower replies request [RuleMatcherCalled]
      | None \<Rightarrow> hybridMatch_step2 sv parse lower replies request [RuleMatcherCalled])"

section \<open>Notions used in the statements\<close>

subsection \<open>Runs of the engine\<close>

text \<open>Call \<open>i\<close> comes back with a thought that asks for another one.\<close>

definition continues :: "json_parser \<Rightarrow> (nat \<Rightarrow> api_reply) \<Rightarrow> nat \<Rightarrow> bool" where
  "continues parse replies i =
     (case getNextThought parse (replies i) of Inr t \<Rightarrow> next_thought_needed t | Inl e \<Rightarrow> False)"

text \<open>The thoughts of the first \<open>k\<close> calls, in order.\<close>

definition rounds :: "json_parser \<Rightarrow> (nat \<Rightarrow> api_reply) \<Rightarrow> nat \<Rightarrow> SequentialThought list" where
  "rounds parse replies k = map (\<lambda>i. projr (getNextThought parse (replies i))) [0..<k]"

text \<open>
  The shape of a finished run of the loop started with call \<open>n\<close> in state \<open>st\<close>: the
  thoughts \<open>ts\<close> were received one per call, each state before a call asked to go on, and
  the run ended either with a state that does not, or with a failing call.
\<close>

definition run_shape ::
  "json_parser \<Rightarrow> (nat \<Rightarrow> api_reply) \<Rightarrow> nat \<Rightarrow> engine_state \<Rightarrow> SequentialThought list
     \<Rightarrow> nat \<times> (error + engine_state) \<Rightarrow> bool" where
  "run_shape parse replies n st ts y =
     ((\<forall>i<length ts. getNextThought parse (replies (n + i)) = Inr (ts ! i))
      \<and> (\<forall>i<length ts. next_thought_needed ((currentThought st # ts) ! i))
      \<and> (case snd y of
            Inr st' \<Rightarrow> fst y = n + length ts \<and> thoughts st' = thoughts st @ ts
              \<and> currentThought st' = last (currentThought st # ts)
              \<and> \<not> next_thought_needed (currentThought st')
          | Inl e \<Rightarrow> fst y = Suc (n + length ts)
              \<and> next_thought_needed (last (currentThought st # ts))
              \<and> getNextThought parse (replies (n + length ts)) = Inl e))"

text \<open>
  The state of the loop when it comes to its test for the \<open>k\<close>-th time after the first,
  that is after \<open>k\<close> calls that each gave a thought, if the run gets that far: every pass
  is the body of the loop.
\<close>

fun state_after :: "json_parser \<Rightarrow> (nat \<Rightarrow> api_reply) \<Rightarrow> nat \<Rightarrow> engine_state option" where
  "state_after parse replies 0 = Some initial_state"
| "state_after parse replies (Suc k) =
     (case state_after parse replies k of
        None \<Rightarrow> None
      | Some st \<Rightarrow>
          if next_thought_needed (currentThought st) then
            (case getNextThought parse (replies k) of
               Inl e \<Rightarrow> None
             | Inr nextThought \<Rightarrow>
                 Some \<lparr>thoughts = thoughts st @ [nextThought], currentThought = nextThought\<rparr>)
          else None)"

text \<open>\<open>typeof\<close> of a member read from a parsed value (\<open>None\<close>: the member is not there).\<close>

definition typeof :: "json option \<Rightarrow> string" where
  "typeof x =
     (case x of
        None \<Rightarrow> ''undefined''
      | Some (JStr s) \<Rightarrow> ''string''
      | Some (JBool b) \<Rightarrow> ''boolean''
      | Some (JNum n) \<Rightarrow> ''number''
      | Some v \<Rightarrow> ''object'')"

text \<open>The required fields are there with their types.\<close>

definition required_fields :: "json \<Rightarrow> bool" where
  "required_fields v =
     (typeof (member v (u ''thought'')) = ''string''
      \<and> typeof (member v (u ''next_thought_needed'')) = ''boolean''
      \<and> typeof (member v (u ''thought_number'')) = ''number''
      \<and> typeof (member v (u ''total_thoughts'')) = ''number'')"

subsection \<open>The matcher\<close>

text \<open>A stage's candidate is missing or below the threshold \<open>c\<close>.\<close>

definition below :: "MatchResult option \<Rightarrow> number \<Rightarrow> bool" where
  "below r c = (case r of None \<Rightarrow> True | Some m \<Rightarrow> confidence m < c)"

text \<open>The six tool identifiers the prompt of step 3 offers.\<close>

definition prompt_tools :: "ustring list" where
  "prompt_tools =
     [u ''research-manager'', u ''prd-generator'', u ''user-stories-generator'',
      (u ''task-list-generator''), u ''rules-generator'', u ''workflow-manager'']"

text \<open>
  The tool name as the specification words it: the first line of the lower-cased, trimmed
  answer, with the text up to the first \<open>": "\<close> removed. \<open>split_label s\<close> cuts \<open>s\<close> at its
  first \<open>": "\<close> into the label before it and the rest after it.
\<close>

fun split_label :: "ustring \<Rightarrow> (ustring \<times> ustring) option" where
  "split_label (a # b # cs) =
     (if a = 0x3A \<and> b = 0x20 then Some ([], cs)
      else map_option (\<lambda>(l, r). (a # l, r)) (split_label (b # cs)))"
| "split_label cs = None"

definition spec_strip_label :: "ustring \<Rightarrow> ustring" where
  "spec_strip_label s = (case split_label s of Some (l, r) \<Rightarrow> r | None \<Rightarrow> s)"

definition spec_tool_name :: "lower_case \<Rightarrow> ustring \<Rightarrow> ustring" where
  "spec_tool_name lower answer = spec_strip_label (first_line (trim (lower answer)))"

text \<open>The same with the proviso the pattern of \<open>replace\<close> brings: a label that holds a line
  terminator (in a first line: CR, U+2028 or U+2029) is not removed.\<close>

definition amended_strip_label :: "ustring \<Rightarrow> ustring" where
  "amended_strip_label s =
     (case split_label s of
        Some (l, r) \<Rightarrow> if list_ex line_terminator l then s else r
      | None \<Rightarrow> s)"

definition amended_tool_name :: "lower_case \<Rightarrow> ustring \<Rightarrow> ustring" where
  "amended_tool_name lower answer = amended_strip_label (first_line (trim (lower answer)))"

section \<open>Concrete inputs\<close>

text \<open>Lower-casing of the letters A to Z: what \<open>toLowerCase\<close> does on a string made of
  ASCII characters and the line separator U+2028, as the answers in the examples are.\<close>

definition ascii_lower :: lower_case where
  "ascii_lower s = map (\<lambda>c. if 0x41 \<le> c \<and> c \<le> 0x5A then c + 0x20 else c) s"

text \<open>The JSON text of a thought with the four required members, and the value
  \<open>JSON.parse\<close> gives for it.\<close>

definition quoted :: "ustring \<Rightarrow> ustring" where
  "quoted s = 0x22 # s @ [0x22]"

definition thought_text :: "ustring \<Rightarrow> bool \<Rightarrow> nat \<Rightarrow> nat \<Rightarrow> ustring" where
  "thought_text t b n m =
     (u ''{'') @ quoted (u ''thought'') @ u '':'' @ quoted t @ u '',''
       @ quoted (u ''next_thought_needed'') @ u '':'' @ (if b then u ''true'' else u ''false'') @ u '',''
       @ quoted (u ''thought_number'') @ u '':'' @ show_nat n @ u '',''
       @ quoted (u ''total_thoughts'') @ u '':'' @ show_nat m @ u ''}''"

definition thought_value :: "ustring \<Rightarrow> bool \<Rightarrow> nat \<Rightarrow> nat \<Rightarrow> json" where
  "thought_value t b n m =
     JObj [(u ''thought'', JStr t), (u ''next_thought_needed'', JBool b),
           (u ''thought_number'', JNum (of_nat n)), (u ''total_thoughts'', JNum (of_nat m))]"

text \<open>The text \<open>{"thought":"half a thought"}\<close>: an object without three of the required
  members.\<close>

definition partial_text :: ustring where
  "partial_text = u ''{'' @ quoted (u ''thought'') @ u '':'' @ quoted (u ''half a thought'') @ u ''}''"

definition first_text :: ustring where
  "first_text = thought_text (u ''compare the options'') True 1 1"

definition second_text :: ustring where
  "second_text = thought_text (u ''look at the verbs'') True 2 5"

definition final_text :: ustring where
  "final_text = thought_text (u ''task-list-generator'') False 2 1"

text \<open>A finite table that agrees with \<open>JSON.parse\<close> on every string the examples below hand
  to it: four JSON texts with their values, and a syntax error for the rest, none of which
  is JSON.\<close>

definition sample_parse :: json_parser where
  "sample_parse =
     map_of
       [(first_text, thought_value (u ''compare the options'') True 1 1),
        (second_text, thought_value (u ''look at the verbs'') True 2 5),
        (final_text, thought_value (u ''task-list-generator'') False 2 1),
        (partial_text, JObj [(u ''thought'', JStr (u ''half a thought''))])]"

text \<open>Endpoints. Each gives the same reply from some call on.\<close>

definition two_round_replies :: "nat \<Rightarrow> api_reply" where
  "two_round_replies k = (if k = 0 then Choice first_text else Choice final_text)"

definition garbled_replies :: "nat \<Rightarrow> api_reply" where
  "garbled_replies k =
     (if k = 0 then Choice first_text
      else if k = 1 then Choice second_text
      else Choice (u ''I think the answer is not JSON''))"

definition partial_replies :: "nat \<Rightarrow> api_reply" where
  "partial_replies k = Choice partial_text"

definition overloaded_replies :: "nat \<Rightarrow> api_reply" where
  "overloaded_replies k =
     (if k = 0 then Choice first_text
      else AxiosFailure (Some (503, Some (quoted (u ''overloaded'')))))"

definition offline_replies :: "nat \<Rightarrow> api_reply" where
  "offline_replies k = AxiosFailure None"

definition asset_replies :: "nat \<Rightarrow> api_reply" where
  "asset_replies k = Choice (u ''Asset-Manager'')"

definition prefixed_replies :: "nat \<Rightarrow> api_reply" where
  "prefixed_replies k = Choice (u ''  Tool: PRD-Generator'')"

definition labelled_replies :: "nat \<Rightarrow> api_reply" where
  "labelled_replies k = Choice (u ''manager: foo'')"

definition carriage_answer :: ustring where
  "carriage_answer = u ''thinking'' @ [0x0D] @ u ''answer: prd-generator''"

definition separator_answer :: ustring where
  "separator_answer = u ''thinking'' @ [0x2028] @ u ''answer: prd-generator''"

definition carriage_replies :: "nat \<Rightarrow> api_reply" where
  "carriage_replies k = Choice carriage_answer"

text \<open>Collaborators: one whose two matchers find nothing, one whose rule matcher knows the
  pattern \<open>research {topic}\<close>, one whose intent detector is fairly sure, and one whose
  matchers both answer below their thresholds.\<close>

definition silent_services :: services where
  "silent_services =
     \<lparr>matchRequest = (\<lambda>request. None),
      extractParameters = (\<lambda>request pattern. Map.empty),
      detectIntent = (\<lambda>request. None),
      extractContextParameters = (\<lambda>request. [u ''query'' \<mapsto> request])\<rparr>"

definition research_services :: services where
  "research_services =
     \<lparr>matchRequest = (\<lambda>request.
        if starts_with request (u ''research '')
        then Some \<lparr>toolName = u ''research-manager'', confidence = 0.9,
                   matchedPattern = Some (u ''research {topic}'')\<rparr>
        else None),
      extractParameters = (\<lambda>request pattern. [u ''topic'' \<mapsto> drop 9 request]),
      detectIntent = (\<lambda>request. None),
      extractContextParameters = (\<lambda>request. [u ''query'' \<mapsto> request])\<rparr>"

definition intent_services :: services where
  "intent_services =
     \<lparr>matchRequest = (\<lambda>request. None),
      extractParameters = (\<lambda>request pattern. Map.empty),
      detectIntent = (\<lambda>request.
        Some \<lparr>toolName = u ''user-stories-generator'', confidence = 0.7,
              matchedPattern = Some (u ''intent_matching'')\<rparr>),
      extractContextParameters = (\<lambda>request. [u ''query'' \<mapsto> request])\<rparr>"

definition hesitant_services :: services where
  "hesitant_services =
     \<lparr>matchRequest = (\<lambda>request.
        Some \<lparr>toolName = u ''prd-generator'', confidence = 0.5,
              matchedPattern = Some (u ''description_match'')\<rparr>),
      extractParameters = (\<lambda>request pattern. Map.empty),
      detectIntent = (\<lambda>request.
        Some \<lparr>toolName = u ''rules-generator'', confidence = 0.3, matchedPattern = None\<rparr>),
      extractContextParameters = (\<lambda>request. [u ''query'' \<mapsto> request])\<rparr>"

section \<open>Properties of the engine\<close>

subsection \<open>One pass of the loop\<close>

lemma think_loop_stop:
  "\<not> next_thought_needed (currentThought st) \<Longrightarrow>
   think_loop parse replies n st = Some (n, Inr st)"
  by (subst think_loop.simps) simp

lemma think_loop_fail:
  "next_thought_needed (currentThought st) \<Longrightarrow> getNextThought parse (replies n) = Inl e \<Longrightarrow>
   think_loop parse replies n st = Some (Suc n, Inl e)"
  by (subst think_loop.simps) simp

lemma think_loop_step:
  "next_thought_needed (currentThought st) \<Longrightarrow> getNextThought parse (replies n) = Inr t \<Longrightarrow>
   think_loop parse replies n st =
   think_loop parse replies (Suc n) \<lparr>thoughts = thoughts st @ [t], currentThought = t\<rparr>"
  by (subst think_loop.simps) simp

subsection \<open>A run returns exactly when it has the shape of a finished run\<close>

lemma run_shape_Cons:
  assumes c: "next_thought_needed (currentThought st)"
    and g: "getNextThought parse (replies n) = Inr t"
    and r: "run_shape parse replies (Suc n)
              \<lparr>thoughts = thoughts st @ [t], currentThought = t\<rparr> ts y"
  shows "run_shape parse replies n st (t # ts) y"
proof -
  have a: "\<forall>i<length (t # ts). getNextThought parse (replies (n + i)) = Inr ((t # ts) ! i)"
  proof (intro allI impI)
    fix i assume "i < length (t # ts)"
    then show "getNextThought parse (replies (n + i)) = Inr ((t # ts) ! i)"
      using g r by (cases i) (auto simp: run_shape_def)
  qed
  have b: "\<forall>i<length (t # ts). next_thought_needed ((currentThought st # t # ts) ! i)"
  proof (intro allI impI)
    fix i assume "i < length (t # ts)"
    then show "next_thought_needed ((currentThought st # t # ts) ! i)"
      using c r by (cases i) (auto simp: run_shape_def)
  qed
  show ?thesis
    unfolding run_shape_def using a b r
    by (auto simp: run_shape_def split: sum.splits)
qed

lemma run_shape_tail:
  assumes "run_shape parse replies n st (t # ts) y"
  shows "run_shape parse replies (Suc n)
           \<lparr>thoughts = thoughts st @ [t], currentThought = t\<rparr> ts y"
  unfolding run_shape_def
proof (intro conjI allI impI)
  fix i assume "i < length ts"
  with assms have "getNextThought parse (replies (n + Suc i)) = Inr ((t # ts) ! Suc i)"
    unfolding run_shape_def by (metis Suc_less_eq length_Cons)
  then show "getNextThought parse (replies (Suc n + i)) = Inr (ts ! i)" by simp
next
  fix i assume "i < length ts"
  with assms have "next_thought_needed ((currentThought st # t # ts) ! Suc i)"
    unfolding run_shape_def by (metis Suc_less_eq length_Cons)
  then show "next_thought_needed
    ((currentThought \<lparr>thoughts = thoughts st @ [t], currentThought = t\<rparr> # ts) ! i)"
    by simp
next
  show "case snd y of
      Inl e \<Rightarrow> fst y = Suc (Suc n + length ts) \<and>
        next_thought_needed
          (last (currentThought \<lparr>thoughts = thoughts st @ [t], currentThought = t\<rparr> # ts)) \<and>
        getNextThought parse (replies (Suc n + length ts)) = Inl e
    | Inr st' \<Rightarrow> fst y = Suc n + length ts \<and>
        thoughts st' = thoughts \<lparr>thoughts = thoughts st @ [t], currentThought = t\<rparr> @ ts \<and>
        currentThought st' =
          last (currentThought \<lparr>thoughts = thoughts st @ [t], currentThought = t\<rparr> # ts) \<and>
        \<not> next_thought_needed (currentThought st')"
    using assms by (auto simp: run_shape_def split: sum.splits)
qed

lemma think_loop_Some:
  assumes "think_loop parse replies n st = Some y"
  shows "\<exists>ts. run_shape parse replies n st ts y"
  using assms
proof (induct rule: think_loop.raw_induct[rotated 1, consumes 1, case_names step])
  case (step loop parse replies n st y)
  show ?case
  proof (cases "next_thought_needed (currentThought st)")
    case False
    with step(2) have "y = (n, Inr st)" by simp
    then have "run_shape parse replies n st [] y"
      using False by (simp add: run_shape_def)
    then show ?thesis ..
  next
    case True
    show ?thesis
    proof (cases "getNextThought parse (replies n)")
      case (Inl e)
      with True step(2) have "y = (Suc n, Inl e)" by simp
      then have "run_shape parse replies n st [] y"
        using True Inl by (simp add: run_shape_def)
      then show ?thesis ..
    next
      case (Inr t)
      with True step(2) have
        "loop parse replies (Suc n) \<lparr>thoughts = thoughts st @ [t], currentThought = t\<rparr> = Some y"
        by simp
      from step(1)[OF this] obtain ts where
        "run_shape parse replies (Suc n)
           \<lparr>thoughts = thoughts st @ [t], currentThought = t\<rparr> ts y" ..
      from run_shape_Cons[OF True Inr this] show ?thesis ..
    qed
  qed
qed

lemma think_loop_run:
  assumes "run_shape parse replies n st ts y"
  shows "think_loop parse replies n st = Some y"
  using assms
proof (induction ts arbitrary: n st)
  case Nil
  then show ?case
    by (cases y; cases "snd y") (auto simp: run_shape_def think_loop_stop think_loop_fail)
next
  case (Cons t ts)
  from Cons.prems have c: "next_thought_needed (currentThought st)"
    and g: "getNextThought parse (replies n) = Inr t"
    by (auto simp: run_shape_def)
  from Cons.IH[OF run_shape_tail[OF Cons.prems]] show ?case
    using think_loop_step[of st parse replies n t, OF c g] by simp
qed

subsection \<open>Runs from the initial state\<close>

lemma continues_Inr:
  "continues parse replies i \<Longrightarrow>
   getNextThought parse (replies i) = Inr (projr (getNextThought parse (replies i)))
   \<and> next_thought_needed (projr (getNextThought parse (replies i)))"
  by (cases "getNextThought parse (replies i)") (simp_all add: continues_def)

lemma initial_continues: "next_thought_needed (currentThought initial_state)"
  by (simp add: initial_state_def)

lemma initial_thoughts: "thoughts initial_state = []"
  by (simp add: initial_state_def)

lemma length_rounds: "length (rounds parse replies k) = k"
  by (simp add: rounds_def)

lemma run_shape_rounds:
  assumes "\<forall>i<k. continues parse replies i"
  shows "(\<forall>i<length (rounds parse replies k).
            getNextThought parse (replies (0 + i)) = Inr (rounds parse replies k ! i))
       \<and> (\<forall>i<length (rounds parse replies k).
            next_thought_needed ((currentThought initial_state # rounds parse replies k) ! i))"
proof (intro conjI allI impI)
  fix i assume "i < length (rounds parse replies k)"
  then have "i < k" by (simp add: rounds_def)
  with assms have "continues parse replies i" by simp
  from continues_Inr[OF this] \<open>i < k\<close>
  show "getNextThought parse (replies (0 + i)) = Inr (rounds parse replies k ! i)"
    by (simp add: rounds_def)
next
  fix i assume "i < length (rounds parse replies k)"
  then have ik: "i < k" by (simp add: rounds_def)
  show "next_thought_needed ((currentThought initial_state # rounds parse replies k) ! i)"
  proof (cases i)
    case 0
    then show ?thesis by (simp add: initial_continues)
  next
    case (Suc j)
    with ik have "j < k" by simp
    with assms have "continues parse replies j" by simp
    from continues_Inr[OF this] Suc \<open>j < k\<close> show ?thesis
      by (simp add: rounds_def)
  qed
qed

lemma last_rounds_continues:
  assumes "\<forall>i<k. continues parse replies i"
  shows "next_thought_needed (last (currentThought initial_state # rounds parse replies k))"
proof (cases k)
  case 0
  then show ?thesis by (simp add: rounds_def initial_continues)
next
  case (Suc j)
  with assms have "continues parse replies j" by simp
  from continues_Inr[OF this] Suc show ?thesis
    by (simp add: rounds_def)
qed

lemma think_loop_returns:
  assumes c: "\<forall>i<k. continues parse replies i"
    and g: "getNextThought parse (replies k) = Inr t"
    and s: "\<not> next_thought_needed t"
  shows "think_loop parse replies 0 initial_state =
         Some (Suc k, Inr \<lparr>thoughts = rounds parse replies k @ [t], currentThought = t\<rparr>)"
proof (rule think_loop_run[where ts = "rounds parse replies k @ [t]"])
  note r = run_shape_rounds[OF c]
  show "run_shape parse replies 0 initial_state (rounds parse replies k @ [t])
          (Suc k, Inr \<lparr>thoughts = rounds parse replies k @ [t], currentThought = t\<rparr>)"
    unfolding run_shape_def
  proof (intro conjI allI impI)
    fix i assume "i < length (rounds parse replies k @ [t])"
    then show "getNextThought parse (replies (0 + i)) = Inr ((rounds parse replies k @ [t]) ! i)"
      using r g by (cases "i < k") (auto simp: nth_append length_rounds less_Suc_eq)
  next
    fix i assume "i < length (rounds parse replies k @ [t])"
    then have il: "i < length (currentThought initial_state # rounds parse replies k)"
      by (simp add: length_rounds)
    then have "(currentThought initial_state # rounds parse replies k @ [t]) ! i
             = (currentThought initial_state # rounds parse replies k) ! i"
      by (metis append_Cons nth_append)
    moreover
    have "next_thought_needed ((currentThought initial_state # rounds parse replies k) ! i)"
    proof (cases "i < k")
      case True
      with r show ?thesis by (simp add: length_rounds)
    next
      case False
      with il have "i = k" by (simp add: length_rounds)
      then have "(currentThought initial_state # rounds parse replies k) ! i
               = last (currentThought initial_state # rounds parse replies k)"
        by (metis length_rounds last_conv_nth length_Cons diff_Suc_1 list.distinct(1))
      then show ?thesis using last_rounds_continues[OF c] by simp
    qed
    ultimately
    show "next_thought_needed ((currentThought initial_state # rounds parse replies k @ [t]) ! i)"
      by simp
  next
    show "case snd (Suc k, Inr \<lparr>thoughts = rounds parse replies k @ [t], currentThought = t\<rparr>) of
       Inl e \<Rightarrow> fst (Suc k, Inr \<lparr>thoughts = rounds parse replies k @ [t], currentThought = t\<rparr>)
                 = Suc (0 + length (rounds parse replies k @ [t]))
              \<and> next_thought_needed
                  (last (currentThought initial_state # rounds parse replies k @ [t]))
              \<and> getNextThought parse (replies (0 + length (rounds parse replies k @ [t]))) = Inl e
     | Inr st' \<Rightarrow> fst (Suc k, Inr \<lparr>thoughts = rounds parse replies k @ [t], currentThought = t\<rparr>)
                 = 0 + length (rounds parse replies k @ [t])
              \<and> thoughts st' = thoughts initial_state @ rounds parse replies k @ [t]
              \<and> currentThought st'
                 = last (currentThought initial_state # rounds parse replies k @ [t])
              \<and> \<not> next_thought_needed (currentThought st')"
      using s by (simp add: length_rounds initial_thoughts)
  qed
qed

lemma think_loop_throws:
  assumes c: "\<forall>i<k. continues parse replies i"
    and g: "getNextThought parse (replies k) = Inl e"
  shows "think_loop parse replies 0 initial_state = Some (Suc k, Inl e)"
proof (rule think_loop_run[where ts = "rounds parse replies k"])
  show "run_shape parse replies 0 initial_state (rounds parse replies k) (Suc k, Inl e)"
    using run_shape_rounds[OF c] last_rounds_continues[OF c] g
    by (simp add: run_shape_def length_rounds)
qed

lemma think_loop_initial_Some:
  assumes "think_loop parse replies 0 initial_state = Some (m, r)"
  shows "\<exists>k. m = Suc k \<and> (\<forall>i<k. continues parse replies i)
           \<and> (case r of
                 Inr st' \<Rightarrow> getNextThought parse (replies k) = Inr (currentThought st')
                   \<and> \<not> next_thought_needed (currentThought st')
                   \<and> thoughts st' = rounds parse replies k @ [currentThought st']
               | Inl e \<Rightarrow> getNextThought parse (replies k) = Inl e)"
proof -
  from think_loop_Some[OF assms] obtain ts where
    sh: "run_shape parse replies 0 initial_state ts (m, r)" ..
  then have g: "\<forall>i<length ts. getNextThought parse (replies i) = Inr (ts ! i)"
    and n: "\<forall>i<length ts. next_thought_needed ((currentThought initial_state # ts) ! i)"
    by (simp_all add: run_shape_def)
  have cont: "continues parse replies i" if "Suc i < length ts" for i
  proof -
    from that g have "getNextThought parse (replies i) = Inr (ts ! i)" by simp
    moreover
    from that n have "next_thought_needed ((currentThought initial_state # ts) ! Suc i)"
      by blast
    ultimately show ?thesis by (simp add: continues_def)
  qed
  have rd: "rounds parse replies j = take j ts" if "j \<le> length ts" for j
    using that g by (auto simp: rounds_def intro!: nth_equalityI)
  show ?thesis
  proof (cases r)
    case (Inl e)
    with sh have m: "m = Suc (length ts)"
      and l: "next_thought_needed (last (currentThought initial_state # ts))"
      and e: "getNextThought parse (replies (length ts)) = Inl e"
      by (auto simp add: run_shape_def simp del: last.simps)
    have "continues parse replies i" if "i < length ts" for i
    proof (cases "Suc i < length ts")
      case True
      then show ?thesis by (rule cont)
    next
      case False
      with that have i: "Suc i = length ts" by simp
      then have "ts \<noteq> []" by auto
      with i have "last (currentThought initial_state # ts) = ts ! i"
        by (metis diff_Suc_1 last_ConsR last_conv_nth)
      with l g that show ?thesis by (simp add: continues_def)
    qed
    with m e Inl show ?thesis by auto
  next
    case (Inr st')
    with sh have m: "m = length ts"
      and th: "thoughts st' = ts"
      and cu: "currentThought st' = last (currentThought initial_state # ts)"
      and st: "\<not> next_thought_needed (currentThought st')"
      by (auto simp add: run_shape_def initial_thoughts simp del: last.simps)
    from cu st have ne: "ts \<noteq> []" using initial_continues by auto
    then obtain k where k: "length ts = Suc k" by (cases ts) auto
    from ne cu k have la: "currentThought st' = ts ! k"
      by (metis diff_Suc_1 last_ConsR last_conv_nth)
    have "ts = take k ts @ [ts ! k]"
      using k by (metis lessI take_Suc_conv_app_nth take_all order_refl)
    then have "thoughts st' = rounds parse replies k @ [currentThought st']"
      using th la rd[of k] k by simp
    moreover have "getNextThought parse (replies k) = Inr (currentThought st')"
      using g k la by simp
    moreover have "\<forall>i<k. continues parse replies i"
      using cont k by simp
    ultimately show ?thesis using m k st Inr by auto
  qed
qed

lemma think_loop_diverges:
  assumes "\<forall>i. continues parse replies i"
  shows "think_loop parse replies 0 initial_state = None"
proof (cases "think_loop parse replies 0 initial_state")
  case None
  then show ?thesis .
next
  case (Some y)
  obtain m r where "y = (m, r)" by (cases y)
  with Some think_loop_initial_Some[of parse replies m r] obtain k where
    "case r of Inr st' \<Rightarrow> getNextThought parse (replies k) = Inr (currentThought st')
                   \<and> \<not> next_thought_needed (currentThought st')
                   \<and> thoughts st' = rounds parse replies k @ [currentThought st']
               | Inl e \<Rightarrow> getNextThought parse (replies k) = Inl e"
    by auto
  moreover from assms have "continues parse replies k" ..
  ultimately have False
    by (cases r) (auto simp: continues_def)
  then show ?thesis ..
qed

subsection \<open>The function around the loop\<close>

lemma process_returns:
  assumes "\<forall>i<k. continues parse replies i"
    and "getNextThought parse (replies k) = Inr t"
    and "\<not> next_thought_needed t"
  shows "processWithSequentialThinking parse replies = Some (Suc k, Inr (thought t))"
  using think_loop_returns[OF assms] by (simp add: processWithSequentialThinking_def)

lemma process_throws:
  assumes "\<forall>i<k. continues parse replies i"
    and "getNextThought parse (replies k) = Inl e"
  shows "processWithSequentialThinking parse replies = Some (Suc k, Inl e)"
  using think_loop_throws[OF assms] by (simp add: processWithSequentialThinking_def)

lemma process_diverges:
  assumes "\<forall>i. continues parse replies i"
  shows "processWithSequentialThinking parse replies = None"
  using think_loop_diverges[OF assms] by (simp add: processWithSequentialThinking_def)

lemma process_Inr_shape:
  assumes "processWithSequentialThinking parse replies = Some (m, Inr s)"
  shows "\<exists>k t. m = Suc k \<and> (\<forall>i<k. continues parse replies i)
           \<and> getNextThought parse (replies k) = Inr t \<and> \<not> next_thought_needed t
           \<and> s = thought t"
proof -
  from assms obtain st where
    l: "think_loop parse replies 0 initial_state = Some (m, Inr st)"
    and s: "s = thought (currentThought st)"
    by (auto simp: processWithSequentialThinking_def split: option.splits sum.splits)
  from think_loop_initial_Some[OF l] s show ?thesis by auto
qed

lemma process_Inl_shape:
  assumes "processWithSequentialThinking parse replies = Some (m, Inl e)"
  shows "\<exists>k. m = Suc k \<and> (\<forall>i<k. continues parse replies i)
           \<and> getNextThought parse (replies k) = Inl e"
proof -
  from assms have "think_loop parse replies 0 initial_state = Some (m, Inl e)"
    by (auto simp: processWithSequentialThinking_def split: option.splits sum.splits)
  from think_loop_initial_Some[OF this] show ?thesis by auto
qed

subsection \<open>Literals\<close>

lemma u_Nil [simp]: "u [] = []"
  by (simp add: u_def)

lemma u_Cons: "u (c # cs) = of_char c # u cs"
  by (simp add: u_def)

lemma u_eq_iff [simp]: "u a = u b \<longleftrightarrow> a = b"
proof (induction a arbitrary: b)
  case Nil
  then show ?case by (cases b) (simp_all add: u_def)
next
  case (Cons c cs)
  then show ?case by (cases b) (simp_all add: u_Cons)
qed

lemma u_empty_iff [simp]: "u s = [] \<longleftrightarrow> s = []"
  by (simp add: u_def)

subsection \<open>Replies and what \<open>getNextThought\<close> makes of them\<close>

lemma validate_None_iff: "validate v = None \<longleftrightarrow> \<not> required_fields v"
  by (auto simp: validate_def required_fields_def typeof_def
      split: option.splits json.splits)

lemma getNextThought_malformed:
  assumes "parse content = None \<or> (\<exists>v. parse content = Some v \<and> \<not> required_fields v)"
  shows "getNextThought parse (Choice content) = Inr (fallback_thought content)"
proof -
  from assms have "parse_thought parse content = None"
    using validate_None_iff by (auto simp: parse_thought_def)
  then show ?thesis by (simp add: getNextThought_def)
qed

lemma show_nat_digits:
  "show_nat (Suc 0) = u ''1''" "show_nat 1 = u ''1''" "show_nat 2 = u ''2''"
  "show_nat 5 = u ''5''" "show_nat 503 = u ''503''"
  by (simp_all add: show_nat.simps digit_char_def u_def)

lemma validate_thought_value:
  "validate (thought_value t b n m) =
     Some \<lparr>thought = t, next_thought_needed = b, thought_number = of_nat n,
           total_thoughts = of_nat m, is_revision = None, revises_thought = None,
           branch_from_thought = None, branch_id = None, needs_more_thoughts = None\<rparr>"
  by (simp add: validate_def thought_value_def member_def)

lemma sample_first:
  "getNextThought sample_parse (Choice first_text) =
     Inr \<lparr>thought = u ''compare the options'', next_thought_needed = True, thought_number = 1,
          total_thoughts = 1, is_revision = None, revises_thought = None,
          branch_from_thought = None, branch_id = None, needs_more_thoughts = None\<rparr>"
  by (simp add: getNextThought_def parse_thought_def sample_parse_def validate_thought_value
      first_text_def second_text_def final_text_def partial_text_def
      thought_text_def show_nat_digits quoted_def u_def)

lemma sample_second:
  "getNextThought sample_parse (Choice second_text) =
     Inr \<lparr>thought = u ''look at the verbs'', next_thought_needed = True, thought_number = 2,
          total_thoughts = 5, is_revision = None, revises_thought = None,
          branch_from_thought = None, branch_id = None, needs_more_thoughts = None\<rparr>"
  by (simp add: getNextThought_def parse_thought_def sample_parse_def validate_thought_value
      first_text_def second_text_def final_text_def partial_text_def
      thought_text_def show_nat_digits quoted_def u_def)

lemma sample_final:
  "getNextThought sample_parse (Choice final_text) =
     Inr \<lparr>thought = u ''task-list-generator'', next_thought_needed = False, thought_number = 2,
          total_thoughts = 1, is_revision = None, revises_thought = None,
          branch_from_thought = None, branch_id = None, needs_more_thoughts = None\<rparr>"
  by (simp add: getNextThought_def parse_thought_def sample_parse_def validate_thought_value
      first_text_def second_text_def final_text_def partial_text_def
      thought_text_def show_nat_digits quoted_def u_def)

lemma sample_garbled: "sample_parse (u ''I think the answer is not JSON'') = None"
  by (simp add: sample_parse_def first_text_def second_text_def final_text_def
      thought_text_def partial_text_def quoted_def u_def)

lemma sample_partial:
  "sample_parse partial_text = Some (JObj [(u ''thought'', JStr (u ''half a thought''))])"
  by (simp add: sample_parse_def first_text_def second_text_def final_text_def
      thought_text_def partial_text_def quoted_def u_def show_nat_digits)

subsection \<open>The claims about the engine\<close>

text \<open>
  Claim C2. The loop of the engine goes on exactly while the thought of the current round
  asks for another one. A run returns after \<open>m\<close> model calls with the string \<open>s\<close> if and only
  if \<open>m = k + 1\<close> where the thoughts of calls \<open>0..k-1\<close> all have \<open>next_thought_needed\<close> true and
  the thought \<open>t\<close> of call \<open>k\<close> has it false, and then \<open>s\<close> is the text of \<open>t\<close>;
  \<open>total_thoughts\<close> has no part in this condition. A run whose thoughts all ask for another
  one never returns, whatever their \<open>total_thoughts\<close>. If the thought of the first call
  has \<open>next_thought_needed\<close> false, the run makes exactly one call and returns its text. The
  value returned is always the text of the last thought appended to the history.
\<close>

theorem engine_loops_while_next_thought_needed:
  "(processWithSequentialThinking parse replies = Some (m, Inr s) \<longleftrightarrow>
      (\<exists>k t. m = Suc k \<and> (\<forall>i<k. continues parse replies i)
         \<and> getNextThought parse (replies k) = Inr t \<and> \<not> next_thought_needed t
         \<and> s = thought t))
   \<and> ((\<forall>i. continues parse replies i) \<longrightarrow> processWithSequentialThinking parse replies = None)
   \<and> (getNextThought parse (replies 0) = Inr t0 \<and> \<not> next_thought_needed t0 \<longrightarrow>
        processWithSequentialThinking parse replies = Some (1, Inr (thought t0)))
   \<and> (think_loop parse replies 0 initial_state = Some (n, Inr st) \<longrightarrow>
        thoughts st \<noteq> [] \<and> length (thoughts st) = n \<and> currentThought st = last (thoughts st)
        \<and> processWithSequentialThinking parse replies
            = Some (n, Inr (thought (last (thoughts st)))))"
proof (intro conjI impI)
  show "processWithSequentialThinking parse replies = Some (m, Inr s) \<longleftrightarrow>
      (\<exists>k t. m = Suc k \<and> (\<forall>i<k. continues parse replies i)
         \<and> getNextThought parse (replies k) = Inr t \<and> \<not> next_thought_needed t
         \<and> s = thought t)"
    using process_Inr_shape[of parse replies m s] process_returns[of _ parse replies]
    by blast
next
  assume "\<forall>i. continues parse replies i"
  then show "processWithSequentialThinking parse replies = None"
    by (rule process_diverges)
next
  assume "getNextThought parse (replies 0) = Inr t0 \<and> \<not> next_thought_needed t0"
  then show "processWithSequentialThinking parse replies = Some (1, Inr (thought t0))"
    using process_returns[of 0 parse replies t0] by simp
next
  assume l: "think_loop parse replies 0 initial_state = Some (n, Inr st)"
  from think_loop_initial_Some[OF l] obtain k where
    k: "n = Suc k" "thoughts st = rounds parse replies k @ [currentThought st]"
    by auto
  from k show "thoughts st \<noteq> []" by auto
  from k show "length (thoughts st) = n" by (simp add: length_rounds)
  from k show c: "currentThought st = last (thoughts st)" by (metis last_snoc)
  from l c show "processWithSequentialThinking parse replies
      = Some (n, Inr (thought (last (thoughts st))))"
    by (simp add: processWithSequentialThinking_def)
qed

theorem engine_loops_while_next_thought_needed_witness:
  "continues sample_parse two_round_replies 0
   \<and> total_thoughts (projr (getNextThought sample_parse (two_round_replies 0))) = 1
   \<and> processWithSequentialThinking sample_parse two_round_replies
       = Some (2, Inr (u ''task-list-generator''))"
proof -
  have a: "continues sample_parse two_round_replies 0"
    by (simp add: continues_def two_round_replies_def sample_first)
  have b: "total_thoughts (projr (getNextThought sample_parse (two_round_replies 0))) = 1"
    by (simp add: two_round_replies_def sample_first)
  have "\<exists>k t. (2::nat) = Suc k \<and> (\<forall>i<k. continues sample_parse two_round_replies i)
         \<and> getNextThought sample_parse (two_round_replies k) = Inr t
         \<and> \<not> next_thought_needed t \<and> (u ''task-list-generator'') = thought t"
    using a by (intro exI[of _ 1]) (simp add: two_round_replies_def sample_final)
  with engine_loops_while_next_thought_needed
         [of sample_parse two_round_replies 2 "(u ''task-list-generator'')"]
  have "processWithSequentialThinking sample_parse two_round_replies
       = Some (2, Inr (u ''task-list-generator''))"
    by blast
  with a b show ?thesis by simp
qed

text \<open>
  Claim C3. A reply whose content does not parse as JSON, or parses to a value without a
  string \<open>thought\<close>, a boolean \<open>next_thought_needed\<close>, a number \<open>thought_number\<close> or a number
  \<open>total_thoughts\<close>, is not an error: \<open>getNextThought\<close> returns a thought whose text is the
  content as it came and whose \<open>next_thought_needed\<close> is false, and a run that receives it
  at call \<open>k\<close> returns that content after that call.
\<close>

theorem malformed_reply_ends_run_with_raw_content:
  assumes "parse content = None \<or> (\<exists>v. parse content = Some v \<and> \<not> required_fields v)"
  shows "getNextThought parse (Choice content) = Inr (fallback_thought content)
       \<and> thought (fallback_thought content) = content
       \<and> \<not> next_thought_needed (fallback_thought content)
       \<and> ((\<forall>i<k. continues parse replies i) \<and> replies k = Choice content \<longrightarrow>
            processWithSequentialThinking parse replies = Some (Suc k, Inr content))"
proof (intro conjI impI)
  show g: "getNextThought parse (Choice content) = Inr (fallback_thought content)"
    using assms by (rule getNextThought_malformed)
  show t: "thought (fallback_thought content) = content"
    by (simp add: fallback_thought_def)
  show n: "\<not> next_thought_needed (fallback_thought content)"
    by (simp add: fallback_thought_def)
  assume h: "(\<forall>i<k. continues parse replies i) \<and> replies k = Choice content"
  with g have "getNextThought parse (replies k) = Inr (fallback_thought content)" by simp
  from process_returns[of k parse replies "fallback_thought content"] this n h t
  show "processWithSequentialThinking parse replies = Some (Suc k, Inr content)" by simp
qed

theorem malformed_reply_ends_run_with_raw_content_witness:
  "sample_parse (u ''I think the answer is not JSON'') = None
   \<and> continues sample_parse garbled_replies 0 \<and> continues sample_parse garbled_replies 1
   \<and> garbled_replies 2 = Choice (u ''I think the answer is not JSON'')
   \<and> processWithSequentialThinking sample_parse garbled_replies
       = Some (3, Inr (u ''I think the answer is not JSON''))
   \<and> sample_parse partial_text = Some (JObj [(u ''thought'', JStr (u ''half a thought''))])
   \<and> \<not> required_fields (JObj [(u ''thought'', JStr (u ''half a thought''))])
   \<and> processWithSequentialThinking sample_parse partial_replies = Some (1, Inr partial_text)"
proof -
  have p: "sample_parse (u ''I think the answer is not JSON'') = None"
    by (rule sample_garbled)
  have c0: "continues sample_parse garbled_replies 0"
    by (simp add: continues_def garbled_replies_def sample_first)
  have c1: "continues sample_parse garbled_replies 1"
    by (simp add: continues_def garbled_replies_def sample_second)
  have c: "\<forall>i<2. continues sample_parse garbled_replies i"
    using c0 c1 by (simp add: less_Suc_eq numeral_2_eq_2)
  have r: "garbled_replies 2 = Choice (u ''I think the answer is not JSON'')"
    by (simp add: garbled_replies_def)
  from malformed_reply_ends_run_with_raw_content
         [of sample_parse "(u ''I think the answer is not JSON'')" 2 garbled_replies] p c r
  have a: "processWithSequentialThinking sample_parse garbled_replies
       = Some (Suc 2, Inr (u ''I think the answer is not JSON''))"
    by blast
  have q: "\<not> required_fields (JObj [(u ''thought'', JStr (u ''half a thought''))])"
    by (simp add: required_fields_def typeof_def member_def)
  with sample_partial
  have "sample_parse partial_text = None
        \<or> (\<exists>v. sample_parse partial_text = Some v \<and> \<not> required_fields v)"
    by simp
  with malformed_reply_ends_run_with_raw_content[of sample_parse partial_text 0 partial_replies]
  have b: "processWithSequentialThinking sample_parse partial_replies
       = Some (1, Inr partial_text)"
    by (simp add: partial_replies_def)
  from p c0 c1 r a sample_partial q b show ?thesis by simp
qed

text \<open>
  Claim C8. When the HTTP call fails with an axios error, \<open>getNextThought\<close> throws an error
  whose message holds the status and the response body where there are any
  (\<open>undefined\<close> and \<open>{}\<close> where there are none), and a run that meets the failure at call
  \<open>k\<close> throws that same error after exactly \<open>k + 1\<close> calls: the failed call is not made
  again.
\<close>

theorem transport_failure_propagates:
  assumes "\<forall>i<k. continues parse replies i"
    and "replies k = AxiosFailure r"
  shows "getNextThought parse (replies k)
           = Inl (Error ((u ''API error: '') @ show_status r @ u '' - '' @ show_data r))
       \<and> processWithSequentialThinking parse replies
           = Some (Suc k, Inl (Error ((u ''API error: '') @ show_status r @ u '' - '' @ show_data r)))
       \<and> (\<forall>status body. r = Some (status, Some body) \<longrightarrow>
            show_status r = show_nat status \<and> show_data r = body)
       \<and> (r = None \<longrightarrow> show_status r = u ''undefined'' \<and> show_data r = u ''{}'')"
proof (intro conjI allI impI)
  show g: "getNextThought parse (replies k)
           = Inl (Error ((u ''API error: '') @ show_status r @ u '' - '' @ show_data r))"
    using assms(2) by (simp add: getNextThought_def)
  from process_throws[OF assms(1) g]
  show "processWithSequentialThinking parse replies
           = Some (Suc k, Inl (Error ((u ''API error: '') @ show_status r @ u '' - '' @ show_data r)))" .
qed (simp_all add: show_status_def show_data_def)

theorem transport_failure_propagates_witness:
  "continues sample_parse overloaded_replies 0
   \<and> overloaded_replies 1 = AxiosFailure (Some (503, Some (quoted (u ''overloaded''))))
   \<and> processWithSequentialThinking sample_parse overloaded_replies
       = Some (2, Inl (Error ((u ''API error: 503 - '') @ quoted (u ''overloaded''))))"
proof -
  have c0: "continues sample_parse overloaded_replies 0"
    by (simp add: continues_def overloaded_replies_def sample_first)
  then have c: "\<forall>i<1. continues sample_parse overloaded_replies i" by simp
  have r: "overloaded_replies 1 = AxiosFailure (Some (503, Some (quoted (u ''overloaded''))))"
    by (simp add: overloaded_replies_def)
  from transport_failure_propagates[OF c r] c0 r
  show ?thesis
    by (simp add: show_status_def show_data_def show_nat_digits u_def)
qed

subsection \<open>The states a run passes through\<close>

lemma initial_state_eq:
  "initial_state = \<lparr>thoughts = [], currentThought = currentThought initial_state\<rparr>"
  by (simp add: initial_state_def)

lemma rounds_Suc:
  "rounds parse replies (Suc k) =
     rounds parse replies k @ [projr (getNextThought parse (replies k))]"
  by (simp add: rounds_def)

lemma state_after_continuing:
  assumes "\<forall>i<k. continues parse replies i"
  shows "state_after parse replies k =
         Some \<lparr>thoughts = rounds parse replies k,
               currentThought = last (currentThought initial_state # rounds parse replies k)\<rparr>"
  using assms
proof (induction k)
  case 0
  show ?case using initial_state_eq by (simp add: rounds_def)
next
  case (Suc k)
  then have ih: "state_after parse replies k =
         Some \<lparr>thoughts = rounds parse replies k,
               currentThought = last (currentThought initial_state # rounds parse replies k)\<rparr>"
    and c: "\<forall>i<k. continues parse replies i" and ck: "continues parse replies k"
    by simp_all
  from continues_Inr[OF ck] obtain t where
    g: "getNextThought parse (replies k) = Inr t" by blast
  then have r: "rounds parse replies (Suc k) = rounds parse replies k @ [t]"
    by (simp add: rounds_Suc)
  have "last (currentThought initial_state # rounds parse replies k @ [t]) = t"
    by simp
  with last_rounds_continues[OF c] ih g r show ?case
    by (simp del: last.simps)
qed

lemma state_after_thought:
  assumes "\<forall>i<k. continues parse replies i"
    and "getNextThought parse (replies k) = Inr t"
  shows "state_after parse replies (Suc k) =
         Some \<lparr>thoughts = rounds parse replies k @ [t], currentThought = t\<rparr>"
  using state_after_continuing[OF assms(1)] last_rounds_continues[OF assms(1)] assms(2)
  by (simp del: last.simps)

lemma state_after_Suc:
  assumes "state_after parse replies (Suc k) = Some st'"
  shows "\<exists>st t. state_after parse replies k = Some st
           \<and> next_thought_needed (currentThought st)
           \<and> getNextThought parse (replies k) = Inr t
           \<and> st' = \<lparr>thoughts = thoughts st @ [t], currentThought = t\<rparr>"
  using assms by (auto split: option.splits if_splits sum.splits)

lemma state_after_history:
  assumes "state_after parse replies k = Some st"
  shows "length (thoughts st) = k
       \<and> (\<forall>i<k. getNextThought parse (replies i) = Inr (thoughts st ! i))"
  using assms
proof (induction k arbitrary: st)
  case 0
  then have "st = initial_state" by simp
  then show ?case by (simp add: initial_thoughts)
next
  case (Suc k)
  from state_after_Suc[OF Suc.prems] obtain s t where
    s: "state_after parse replies k = Some s"
    and g: "getNextThought parse (replies k) = Inr t"
    and st: "st = \<lparr>thoughts = thoughts s @ [t], currentThought = t\<rparr>"
    by blast
  from Suc.IH[OF s] have l: "length (thoughts s) = k"
    and h: "\<forall>i<k. getNextThought parse (replies i) = Inr (thoughts s ! i)"
    by simp_all
  have "getNextThought parse (replies i) = Inr (thoughts st ! i)" if "i < Suc k" for i
    using that l h g st by (cases "i < k") (auto simp: nth_append less_Suc_eq)
  with l st show ?case by simp
qed

lemma state_after_prefix:
  assumes "state_after parse replies k = Some st" and "j \<le> k"
  shows "\<exists>sj. state_after parse replies j = Some sj \<and> thoughts sj = take j (thoughts st)"
  using assms
proof (induction k arbitrary: st)
  case 0
  then have "st = initial_state" "j = 0" by simp_all
  then show ?case by (simp add: initial_thoughts)
next
  case (Suc k)
  from state_after_Suc[OF Suc.prems(1)] obtain s t where
    s: "state_after parse replies k = Some s"
    and st: "st = \<lparr>thoughts = thoughts s @ [t], currentThought = t\<rparr>"
    by blast
  from state_after_history[OF s] have l: "length (thoughts s) = k" by simp
  show ?case
  proof (cases "j = Suc k")
    case True
    with Suc.prems(1) st l show ?thesis by simp
  next
    case False
    with Suc.prems(2) have "j \<le> k" by simp
    from Suc.IH[OF s this] obtain sj where
      "state_after parse replies j = Some sj" "thoughts sj = take j (thoughts s)"
      by blast
    with st l \<open>j \<le> k\<close> show ?thesis by simp
  qed
qed

lemma state_after_on_the_way:
  assumes "state_after parse replies k = Some st"
  shows "think_loop parse replies 0 initial_state = think_loop parse replies k st"
  using assms
proof (induction k arbitrary: st)
  case 0
  then show ?case by simp
next
  case (Suc k)
  from state_after_Suc[OF Suc.prems] obtain s t where
    s: "state_after parse replies k = Some s"
    and n: "next_thought_needed (currentThought s)"
    and g: "getNextThought parse (replies k) = Inr t"
    and st: "st = \<lparr>thoughts = thoughts s @ [t], currentThought = t\<rparr>"
    by blast
  from Suc.IH[OF s] think_loop_step[of s parse replies k t, OF n g] st
  show ?case by simp
qed

lemma never_ending_continues:
  assumes "think_loop parse replies 0 initial_state = None"
  shows "continues parse replies i"
proof (rule ccontr)
  assume "\<not> continues parse replies i"
  then have ex: "\<exists>j. \<not> continues parse replies j" ..
  define k where "k = (LEAST j. \<not> continues parse replies j)"
  from ex have nk: "\<not> continues parse replies k"
    unfolding k_def by (rule LeastI_ex)
  have c: "\<forall>i<k. continues parse replies i"
    unfolding k_def using not_less_Least by blast
  show False
  proof (cases "getNextThought parse (replies k)")
    case (Inl e)
    from think_loop_throws[OF c Inl] assms show False by simp
  next
    case (Inr t)
    with nk have "\<not> next_thought_needed t" by (simp add: continues_def)
    from think_loop_returns[OF c Inr this] assms show False by simp
  qed
qed

text \<open>
  Claim C9, as the code has it. In every run of the engine, whether it returns, throws or
  never ends, the history is append-only and holds exactly one round for each model call
  that gave a thought, in the order of the calls; a call that fails adds none and ends the
  run. So a round's position in the history is the number of its call and strictly
  increases. The \<open>thought_number\<close> of a round is the one the reply gave, and 1 for a round
  made up for a malformed reply; the code does not compare it with the round before.
  In the statement, \<open>state_after k\<close> is the state at the loop's test after \<open>k\<close> calls that
  gave a thought: the run from the start goes on from there, its history has \<open>k\<close> rounds,
  round \<open>i\<close> being the thought of call \<open>i\<close>, and the histories of the states before it are
  its prefixes. A run that returns after \<open>m\<close> calls ends in \<open>state_after m\<close>, a run that
  throws at its \<open>m\<close>-th call was in \<open>state_after (m - 1)\<close>, and a run that never ends has a
  \<open>state_after j\<close> for every \<open>j\<close>.
\<close>

theorem history_is_append_only_in_call_order:
  "(state_after parse replies k = Some st \<longrightarrow>
      think_loop parse replies 0 initial_state = think_loop parse replies k st
      \<and> length (thoughts st) = k
      \<and> (\<forall>i<k. getNextThought parse (replies i) = Inr (thoughts st ! i))
      \<and> (\<forall>i<k. \<forall>c. replies i = Choice c \<and> parse_thought parse c = None
            \<longrightarrow> thought_number (thoughts st ! i) = 1)
      \<and> (\<forall>j\<le>k. \<exists>sj. state_after parse replies j = Some sj
            \<and> thoughts sj = take j (thoughts st)))
   \<and> (think_loop parse replies 0 initial_state = Some (m, Inr st') \<longrightarrow>
        state_after parse replies m = Some st')
   \<and> (think_loop parse replies 0 initial_state = Some (m, Inl e) \<longrightarrow>
        (\<exists>j sj. m = Suc j \<and> state_after parse replies j = Some sj
           \<and> getNextThought parse (replies j) = Inl e))
   \<and> (think_loop parse replies 0 initial_state = None \<longrightarrow>
        (\<forall>j. \<exists>sj. state_after parse replies j = Some sj))"
proof (intro conjI impI)
  assume s: "state_after parse replies k = Some st"
  show "think_loop parse replies 0 initial_state = think_loop parse replies k st"
    using s by (rule state_after_on_the_way)
  from state_after_history[OF s]
  show l: "length (thoughts st) = k"
    and h: "\<forall>i<k. getNextThought parse (replies i) = Inr (thoughts st ! i)"
    by simp_all
  show "\<forall>i<k. \<forall>c. replies i = Choice c \<and> parse_thought parse c = None
            \<longrightarrow> thought_number (thoughts st ! i) = 1"
  proof (intro allI impI)
    fix i c assume i: "i < k" and c: "replies i = Choice c \<and> parse_thought parse c = None"
    from h i have "getNextThought parse (replies i) = Inr (thoughts st ! i)" by simp
    with c have "thoughts st ! i = fallback_thought c" by (simp add: getNextThought_def)
    then show "thought_number (thoughts st ! i) = 1" by (simp add: fallback_thought_def)
  qed
  show "\<forall>j\<le>k. \<exists>sj. state_after parse replies j = Some sj
            \<and> thoughts sj = take j (thoughts st)"
    using state_after_prefix[OF s] by blast
next
  assume l: "think_loop parse replies 0 initial_state = Some (m, Inr st')"
  from think_loop_initial_Some[OF l] obtain k where
    k: "m = Suc k" and c: "\<forall>i<k. continues parse replies i"
    and g: "getNextThought parse (replies k) = Inr (currentThought st')"
    and t: "thoughts st' = rounds parse replies k @ [currentThought st']"
    by auto
  from state_after_thought[OF c g] k t show "state_after parse replies m = Some st'"
    by simp
next
  assume l: "think_loop parse replies 0 initial_state = Some (m, Inl e)"
  from think_loop_initial_Some[OF l] obtain k where
    k: "m = Suc k" and c: "\<forall>i<k. continues parse replies i"
    and g: "getNextThought parse (replies k) = Inl e"
    by auto
  from state_after_continuing[OF c] k g
  show "\<exists>j sj. m = Suc j \<and> state_after parse replies j = Some sj
           \<and> getNextThought parse (replies j) = Inl e"
    by blast
next
  assume n: "think_loop parse replies 0 initial_state = None"
  show "\<forall>j. \<exists>sj. state_after parse replies j = Some sj"
  proof
    fix j
    have "\<forall>i<j. continues parse replies i"
      using never_ending_continues[OF n] by simp
    from state_after_continuing[OF this]
    show "\<exists>sj. state_after parse replies j = Some sj" by blast
  qed
qed

lemma garbled_run:
  "think_loop sample_parse garbled_replies 0 initial_state =
     Some (3, Inr
       \<lparr>thoughts =
          [\<lparr>thought = u ''compare the options'', next_thought_needed = True, thought_number = 1,
            total_thoughts = 1, is_revision = None, revises_thought = None,
            branch_from_thought = None, branch_id = None, needs_more_thoughts = None\<rparr>,
           \<lparr>thought = u ''look at the verbs'', next_thought_needed = True, thought_number = 2,
            total_thoughts = 5, is_revision = None, revises_thought = None,
            branch_from_thought = None, branch_id = None, needs_more_thoughts = None\<rparr>,
           fallback_thought (u ''I think the answer is not JSON'')],
        currentThought = fallback_thought (u ''I think the answer is not JSON'')\<rparr>)"
proof -
  have g2: "getNextThought sample_parse (Choice (u ''I think the answer is not JSON''))
          = Inr (fallback_thought (u ''I think the answer is not JSON''))"
    by (simp add: getNextThought_def parse_thought_def sample_garbled)
  have n: "\<not> next_thought_needed (fallback_thought (u ''I think the answer is not JSON''))"
    by (simp add: fallback_thought_def)
  show ?thesis
    apply (subst think_loop_step[OF initial_continues, of sample_parse garbled_replies 0])
     apply (simp add: garbled_replies_def sample_first)
    apply (subst think_loop_step[of _ sample_parse garbled_replies "Suc 0"])
      apply simp
     apply (simp add: garbled_replies_def sample_second)
    apply (subst think_loop_step[of _ sample_parse garbled_replies "Suc (Suc 0)"])
      apply simp
     apply (simp add: garbled_replies_def g2)
    apply (subst think_loop_stop)
     apply (simp add: n)
    apply (simp add: initial_thoughts numeral_3_eq_3)
    done
qed

theorem history_is_append_only_in_call_order_witness:
  "think_loop sample_parse garbled_replies 0 initial_state =
     Some (3, Inr
       \<lparr>thoughts =
          [\<lparr>thought = u ''compare the options'', next_thought_needed = True, thought_number = 1,
            total_thoughts = 1, is_revision = None, revises_thought = None,
            branch_from_thought = None, branch_id = None, needs_more_thoughts = None\<rparr>,
           \<lparr>thought = u ''look at the verbs'', next_thought_needed = True, thought_number = 2,
            total_thoughts = 5, is_revision = None, revises_thought = None,
            branch_from_thought = None, branch_id = None, needs_more_thoughts = None\<rparr>,
           fallback_thought (u ''I think the answer is not JSON'')],
        currentThought = fallback_thought (u ''I think the answer is not JSON'')\<rparr>)
   \<and> (\<exists>s3. state_after sample_parse garbled_replies 3 = Some s3
         \<and> length (thoughts s3) = 3
         \<and> map thought_number (thoughts s3) = [1, 2, 1]
         \<and> (\<exists>s2. state_after sample_parse garbled_replies 2 = Some s2
               \<and> thoughts s2 = take 2 (thoughts s3)))
   \<and> think_loop sample_parse overloaded_replies 0 initial_state =
       Some (2, Inl (Error (u ''API error: 503 - '' @ quoted (u ''overloaded''))))
   \<and> (\<exists>s1. state_after sample_parse overloaded_replies 1 = Some s1
         \<and> length (thoughts s1) = 1)"
proof -
  let ?G = "\<lparr>thoughts =
          [\<lparr>thought = u ''compare the options'', next_thought_needed = True, thought_number = 1,
            total_thoughts = 1, is_revision = None, revises_thought = None,
            branch_from_thought = None, branch_id = None, needs_more_thoughts = None\<rparr>,
           \<lparr>thought = u ''look at the verbs'', next_thought_needed = True, thought_number = 2,
            total_thoughts = 5, is_revision = None, revises_thought = None,
            branch_from_thought = None, branch_id = None, needs_more_thoughts = None\<rparr>,
           fallback_thought (u ''I think the answer is not JSON'')],
        currentThought = fallback_thought (u ''I think the answer is not JSON'')\<rparr>"
  let ?E = "Error (u ''API error: 503 - '' @ quoted (u ''overloaded''))"
  note run = garbled_run
  from history_is_append_only_in_call_order
         [of sample_parse garbled_replies 3 ?G 3 ?G undefined] run
  have s3: "state_after sample_parse garbled_replies 3 = Some ?G"
    by blast
  from history_is_append_only_in_call_order
         [of sample_parse garbled_replies 3 ?G 3 ?G undefined] s3
  have "\<forall>j\<le>3. \<exists>sj. state_after sample_parse garbled_replies j = Some sj
            \<and> thoughts sj = take j (thoughts ?G)"
    by blast
  then have "(2::nat) \<le> 3 \<longrightarrow> (\<exists>s2. state_after sample_parse garbled_replies 2 = Some s2
               \<and> thoughts s2 = take 2 (thoughts ?G))"
    by (rule spec)
  then have s2: "\<exists>s2. state_after sample_parse garbled_replies 2 = Some s2
               \<and> thoughts s2 = take 2 (thoughts ?G)"
    by (rule mp) simp
  have g: "\<exists>s3. state_after sample_parse garbled_replies 3 = Some s3
         \<and> length (thoughts s3) = 3
         \<and> map thought_number (thoughts s3) = [1, 2, 1]
         \<and> (\<exists>s2. state_after sample_parse garbled_replies 2 = Some s2
               \<and> thoughts s2 = take 2 (thoughts s3))"
    using s3 s2 by (intro exI[of _ ?G]) (simp add: fallback_thought_def)
  have c: "\<forall>i<1. continues sample_parse overloaded_replies i"
    by (simp add: continues_def overloaded_replies_def sample_first)
  have "getNextThought sample_parse (overloaded_replies 1) = Inl ?E"
    by (simp add: getNextThought_def overloaded_replies_def show_status_def show_data_def
        show_nat_digits u_def)
  from think_loop_throws[OF c this]
  have t: "think_loop sample_parse overloaded_replies 0 initial_state = Some (2, Inl ?E)"
    by (simp add: numeral_2_eq_2)
  from history_is_append_only_in_call_order
         [of sample_parse overloaded_replies 0 initial_state 2 undefined ?E] t
  obtain s1 where s1: "state_after sample_parse overloaded_replies 1 = Some s1"
    by auto
  from history_is_append_only_in_call_order
         [of sample_parse overloaded_replies 1 s1 2 undefined ?E] s1
  have "length (thoughts s1) = 1" by blast
  with s1 have o: "\<exists>s1. state_after sample_parse overloaded_replies 1 = Some s1
         \<and> length (thoughts s1) = 1"
    by blast
  from run g t o show ?thesis by blast
qed

text \<open>Claim C9 as stated fails: after two well-numbered rounds a malformed reply is entered
  in the history with \<open>thought_number\<close> 1, below the 2 before it.\<close>

theorem history_thought_numbers_not_increasing:
  "think_loop sample_parse garbled_replies 0 initial_state =
     Some (3, Inr
       \<lparr>thoughts =
          [\<lparr>thought = u ''compare the options'', next_thought_needed = True, thought_number = 1,
            total_thoughts = 1, is_revision = None, revises_thought = None,
            branch_from_thought = None, branch_id = None, needs_more_thoughts = None\<rparr>,
           \<lparr>thought = u ''look at the verbs'', next_thought_needed = True, thought_number = 2,
            total_thoughts = 5, is_revision = None, revises_thought = None,
            branch_from_thought = None, branch_id = None, needs_more_thoughts = None\<rparr>,
           fallback_thought (u ''I think the answer is not JSON'')],
        currentThought = fallback_thought (u ''I think the answer is not JSON'')\<rparr>)
   \<and> thought_number (fallback_thought (u ''I think the answer is not JSON'')) = 1
   \<and> \<not> sorted_wrt (<) [1, 2, thought_number (fallback_thought (u ''I think the answer is not JSON''))]"
  using garbled_run by (simp add: fallback_thought_def)

section \<open>Properties of the hybrid matcher\<close>

subsection \<open>The string functions\<close>

lemma looks_like_tool_iff:
  "looks_like_tool t \<longleftrightarrow> str_includes t (u ''generator'') \<or> str_includes t (u ''manager'')"
  by (cases t) (auto simp: looks_like_tool_def)

lemma starts_with_iff: "starts_with s p \<longleftrightarrow> (\<exists>b. s = p @ b)"
  by (induction s p rule: starts_with.induct) auto

lemma str_includes_iff: "str_includes s sub \<longleftrightarrow> (\<exists>a b. s = a @ sub @ b)"
proof (induction s)
  case Nil
  then show ?case by auto
next
  case (Cons c cs)
  have "(\<exists>a b. c # cs = a @ sub @ b) \<longleftrightarrow>
        (\<exists>b. c # cs = sub @ b) \<or> (\<exists>a b. cs = a @ sub @ b)"
  proof
    assume "\<exists>a b. c # cs = a @ sub @ b"
    then obtain a b where ab: "c # cs = a @ sub @ b" by blast
    show "(\<exists>b. c # cs = sub @ b) \<or> (\<exists>a b. cs = a @ sub @ b)"
    proof (cases a)
      case Nil
      with ab show ?thesis by auto
    next
      case (Cons x xs)
      with ab have "cs = xs @ sub @ b" by simp
      then show ?thesis by blast
    qed
  next
    assume "(\<exists>b. c # cs = sub @ b) \<or> (\<exists>a b. cs = a @ sub @ b)"
    then show "\<exists>a b. c # cs = a @ sub @ b"
    proof
      assume "\<exists>b. c # cs = sub @ b"
      then obtain b where "c # cs = [] @ sub @ b" by auto
      then show ?thesis by blast
    next
      assume "\<exists>a b. cs = a @ sub @ b"
      then obtain a b where "c # cs = (c # a) @ sub @ b" by auto
      then show ?thesis by blast
    qed
  qed
  with Cons show ?case by (simp add: starts_with_iff)
qed

lemma colon_space: "u '': '' = [0x3A, 0x20]" "u '':'' = [0x3A]"
  by (simp_all add: u_def)

lemma split_label_parts:
  "split_label s = Some (l, r) \<Longrightarrow> s = l @ u '': '' @ r \<and> \<not> str_includes (l @ u '':'') (u '': '')"
proof (induction s arbitrary: l r rule: split_label.induct)
  case (1 a b cs)
  show ?case
  proof (cases "a = 0x3A \<and> b = 0x20")
    case True
    with 1(2) show ?thesis by (auto simp: colon_space)
  next
    case False
    with 1(2) obtain l' where l': "split_label (b # cs) = Some (l', r)" "l = a # l'"
      by auto
    from 1(1)[OF False l'(1)] have ih: "b # cs = l' @ u '': '' @ r"
      "\<not> str_includes (l' @ u '':'') (u '': '')" by auto
    have "\<not> starts_with (a # l' @ u '':'') (u '': '')"
      using False ih(1) by (cases l') (auto simp: colon_space)
    with ih l' show ?thesis by auto
  qed
qed simp_all

lemma split_label_None: "split_label s = None \<longleftrightarrow> \<not> str_includes s (u '': '')"
  by (induction s rule: split_label.induct) (auto simp: colon_space)

lemma set_first_line: "set (first_line s) \<subseteq> set s"
  unfolding first_line_def by (auto dest: set_takeWhileD)

lemma split_label_set: "split_label s = Some (l, r) \<Longrightarrow> set l \<subseteq> set s"
  by (induction s arbitrary: l r rule: split_label.induct)
     (auto split: if_splits)

lemma match_label_split:
  "match_label s =
     (case split_label s of
        Some (l, r) \<Rightarrow> if list_ex line_terminator l then None else Some r
      | None \<Rightarrow> None)"
  by (induction s rule: match_label.induct)
     (auto split: option.splits)

lemma replace_label_amended: "replace_label s = amended_strip_label s"
  by (simp add: replace_label_def amended_strip_label_def match_label_split
      split: option.splits)

lemma extract_tool_name_amended:
  "extract_tool_name lower answer = amended_tool_name lower answer"
  by (simp add: extract_tool_name_def amended_tool_name_def replace_label_amended)

lemma extract_tool_name_spec:
  assumes "\<not> list_ex line_terminator (first_line (trim (lower answer)))"
  shows "extract_tool_name lower answer = spec_tool_name lower answer"
proof -
  let ?s = "first_line (trim (lower answer))"
  have "amended_strip_label ?s = spec_strip_label ?s"
    using assms split_label_set[of ?s]
    by (fastforce simp: amended_strip_label_def spec_strip_label_def list_ex_iff
        split: option.splits)
  then show ?thesis
    by (simp add: extract_tool_name_amended amended_tool_name_def spec_tool_name_def)
qed

lemma no_label_kept:
  assumes "\<not> str_includes s (u '': '')"
  shows "replace_label s = s"
  using assms split_label_None[of s]
  by (simp add: replace_label_amended amended_strip_label_def)

subsection \<open>The stages\<close>

lemma below_iff:
  "below r c \<longleftrightarrow> r = None \<or> (\<exists>m. r = Some m \<and> confidence m < c)"
  by (cases r) (simp_all add: below_def)

lemma hybridMatch_declined:
  assumes "below (matchRequest sv request) 0.6" and "below (detectIntent sv request) 0.4"
  shows "hybridMatch sv parse lower replies request =
         hybridMatch_step3 sv parse lower replies request [RuleMatcherCalled, IntentDetectorCalled]"
  using assms
  by (auto simp: hybridMatch_def hybridMatch_step2_def below_def MEDIUM_CONFIDENCE_def
      LOW_CONFIDENCE_def split: option.splits)

lemma step3_on_error:
  assumes "processWithSequentialThinking parse replies = Some (n, Inl e)"
  shows "hybridMatch_step3 sv parse lower replies request evs =
         Some (evs @ [EngineCalled n, ErrorLogged e], default_match request)"
  using assms by (simp add: hybridMatch_step3_def performSequentialThinking_def)

lemma step3_on_answer:
  assumes "processWithSequentialThinking parse replies = Some (n, Inr answer)"
  shows "hybridMatch_step3 sv parse lower replies request evs =
         Some (evs @ [EngineCalled n],
           if str_includes (extract_tool_name lower answer) (u ''generator'')
              \<or> str_includes (extract_tool_name lower answer) (u ''manager'')
           then \<lparr>toolName = extract_tool_name lower answer, confidence = 0.5,
                 matchedPattern = Some (u ''sequential_thinking''),
                 parameters = extractContextParameters sv request, matchMethod = Sequential,
                 requiresConfirmation = True\<rparr>
           else default_match request)"
  using assms
  by (simp add: hybridMatch_step3_def performSequentialThinking_def looks_like_tool_iff Let_def)

lemma step3_Some:
  assumes "hybridMatch_step3 sv parse lower replies request evs = Some (evs', r)"
  shows "matchMethod r = Sequential \<and> requiresConfirmation r \<and> confidence r < 0.8"
  using assms
  by (auto simp: hybridMatch_step3_def default_match_def Let_def
      split: option.splits sum.splits if_splits)

lemma process_raw_answer:
  assumes "parse c = None" and "replies 0 = Choice c"
  shows "processWithSequentialThinking parse replies = Some (1, Inr c)"
proof -
  from assms have "getNextThought parse (replies 0) = Inr (fallback_thought c)"
    by (simp add: getNextThought_def parse_thought_def)
  from process_returns[of 0 parse replies, OF _ this] show ?thesis
    by (simp add: fallback_thought_def)
qed

lemma silent_below:
  "below (matchRequest silent_services request) 0.6"
  "below (detectIntent silent_services request) 0.4"
  by (simp_all add: silent_services_def below_def)

lemma hesitant_below:
  "below (matchRequest hesitant_services request) 0.6"
  "below (detectIntent hesitant_services request) 0.4"
  by (simp_all add: hesitant_services_def below_def)

subsection \<open>The claims about the matcher\<close>

text \<open>
  Claim C1. Whenever the rule matcher returns null or a candidate with confidence below
  0.6, the intent detector returns null or a candidate with confidence below 0.4, and the
  call of the sequential engine throws, \<open>hybridMatch\<close> returns (it neither throws nor hangs)
  the default match: tool \<open>research-manager\<close>, confidence 0.2, pattern \<open>fallback\<close>,
  \<open>requiresConfirmation\<close> true, and as parameters the one entry \<open>query\<close> with the whole
  request.
\<close>

theorem fallback_when_all_stages_fail:
  assumes "matchRequest sv request = None
           \<or> (\<exists>m. matchRequest sv request = Some m \<and> confidence m < 0.6)"
    and "detectIntent sv request = None
           \<or> (\<exists>m. detectIntent sv request = Some m \<and> confidence m < 0.4)"
    and "processWithSequentialThinking parse replies = Some (n, Inl e)"
  shows "hybridMatch sv parse lower replies request =
         Some ([RuleMatcherCalled, IntentDetectorCalled, EngineCalled n, ErrorLogged e],
           \<lparr>toolName = u ''research-manager'', confidence = 0.2,
            matchedPattern = Some (u ''fallback''), parameters = [u ''query'' \<mapsto> request],
            matchMethod = Sequential, requiresConfirmation = True\<rparr>)"
proof -
  from assms(1,2) have "below (matchRequest sv request) 0.6"
    and "below (detectIntent sv request) 0.4"
    by (simp_all add: below_iff)
  then show ?thesis
    using step3_on_error[OF assms(3)]
    by (simp add: hybridMatch_declined default_match_def)
qed

theorem fallback_when_all_stages_fail_witness:
  "(\<exists>m. matchRequest hesitant_services (u ''do something'') = Some m \<and> confidence m < 0.6)
   \<and> (\<exists>m. detectIntent hesitant_services (u ''do something'') = Some m \<and> confidence m < 0.4)
   \<and> processWithSequentialThinking sample_parse offline_replies
       = Some (1, Inl (Error (u ''API error: undefined - {}'')))
   \<and> hybridMatch hesitant_services sample_parse ascii_lower offline_replies (u ''do something'') =
       Some ([RuleMatcherCalled, IntentDetectorCalled, EngineCalled 1,
              ErrorLogged (Error (u ''API error: undefined - {}''))],
         \<lparr>toolName = u ''research-manager'', confidence = 0.2,
          matchedPattern = Some (u ''fallback''), parameters = [u ''query'' \<mapsto> u ''do something''],
          matchMethod = Sequential, requiresConfirmation = True\<rparr>)"
proof -
  have a: "\<exists>m. matchRequest hesitant_services (u ''do something'') = Some m \<and> confidence m < 0.6"
    by (simp add: hesitant_services_def)
  have b: "\<exists>m. detectIntent hesitant_services (u ''do something'') = Some m \<and> confidence m < 0.4"
    by (simp add: hesitant_services_def)
  have "getNextThought sample_parse (offline_replies 0)
      = Inl (Error (u ''API error: undefined - {}''))"
    by (simp add: getNextThought_def offline_replies_def show_status_def show_data_def u_def)
  from process_throws[of 0 sample_parse offline_replies, OF _ this]
  have c: "processWithSequentialThinking sample_parse offline_replies
       = Some (1, Inl (Error (u ''API error: undefined - {}'')))"
    by simp
  from fallback_when_all_stages_fail[OF disjI2[OF a] disjI2[OF b] c] a b c
  show ?thesis by blast
qed

text \<open>
  Claim C4. Every match \<open>hybridMatch\<close> returns has \<open>requiresConfirmation\<close> true when its
  method is \<open>sequential\<close> (the default match is one of these) and when its confidence is
  below 0.8; so \<open>requiresConfirmation\<close> is false only on a rule or intent match with
  confidence at least 0.8.
\<close>

theorem confirmation_required_unless_confident_rule_or_intent:
  assumes "hybridMatch sv parse lower replies request = Some (evs, r)"
  shows "(matchMethod r = Sequential \<longrightarrow> requiresConfirmation r)
       \<and> (confidence r < 0.8 \<longrightarrow> requiresConfirmation r)
       \<and> (\<not> requiresConfirmation r \<longrightarrow>
            (matchMethod r = Rule \<or> matchMethod r = Intent) \<and> confidence r \<ge> 0.8)"
proof -
  consider
      (rule) m where "matchRequest sv request = Some m" "confidence m \<ge> 0.6"
        "r = \<lparr>toolName = toolName m, confidence = confidence m,
              matchedPattern = matchedPattern m,
              parameters =
                (case matchedPattern m of
                   Some p \<Rightarrow> if p \<noteq> [] \<and> p \<noteq> u ''description_match''
                             then extractParameters sv request p else Map.empty
                 | None \<Rightarrow> Map.empty),
              matchMethod = Rule, requiresConfirmation = (confidence m < 0.8)\<rparr>"
    | (intent) m where "detectIntent sv request = Some m" "confidence m \<ge> 0.4"
        "r = \<lparr>toolName = toolName m, confidence = confidence m,
              matchedPattern = matchedPattern m,
              parameters = extractContextParameters sv request,
              matchMethod = Intent, requiresConfirmation = (confidence m < 0.8)\<rparr>"
    | (sequential) evs0 where
        "hybridMatch_step3 sv parse lower replies request evs0 = Some (evs, r)"
    using assms
    by (auto simp: hybridMatch_def hybridMatch_step2_def MEDIUM_CONFIDENCE_def
        LOW_CONFIDENCE_def HIGH_CONFIDENCE_def split: option.splits if_splits)
  then show ?thesis
  proof cases
    case rule
    then show ?thesis by auto
  next
    case intent
    then show ?thesis by auto
  next
    case sequential
    from step3_Some[OF this] show ?thesis by auto
  qed
qed

theorem confirmation_required_unless_confident_rule_or_intent_witness:
  "hybridMatch intent_services sample_parse ascii_lower offline_replies (u ''write stories for login'') =
     Some ([RuleMatcherCalled, IntentDetectorCalled],
       \<lparr>toolName = u ''user-stories-generator'', confidence = 0.7,
        matchedPattern = Some (u ''intent_matching''),
        parameters = [u ''query'' \<mapsto> u ''write stories for login''],
        matchMethod = Intent, requiresConfirmation = True\<rparr>)
   \<and> (0.7 :: number) < 0.8"
proof -
  have h: "hybridMatch intent_services sample_parse ascii_lower offline_replies (u ''write stories for login'') =
     Some ([RuleMatcherCalled, IntentDetectorCalled],
       \<lparr>toolName = u ''user-stories-generator'', confidence = 0.7,
        matchedPattern = Some (u ''intent_matching''),
        parameters = extractContextParameters intent_services (u ''write stories for login''),
        matchMethod = Intent, requiresConfirmation = True\<rparr>)"
    by (simp add: hybridMatch_def hybridMatch_step2_def intent_services_def
        LOW_CONFIDENCE_def HIGH_CONFIDENCE_def)
  from confirmation_required_unless_confident_rule_or_intent[OF h]
  have "requiresConfirmation
     \<lparr>toolName = u ''user-stories-generator'', confidence = 0.7,
      matchedPattern = Some (u ''intent_matching''),
      parameters = extractContextParameters intent_services (u ''write stories for login''),
      matchMethod = Intent, requiresConfirmation = True\<rparr>"
    by simp
  with h show ?thesis by (simp add: intent_services_def)
qed

text \<open>
  Claim C5. Whenever the call of the sequential engine throws, \<open>hybridMatch\<close> catches the
  error inside the sequential stage and returns the default match; no error leaves
  \<open>hybridMatch\<close>. The engine is called exactly when the rule matcher and the intent
  detector both decline. Then, if its run ends in an error \<open>e\<close>, whatever the error, or if
  one of its HTTP calls fails after rounds that went on, \<open>hybridMatch\<close> returns the default
  match after logging that error. Every call of \<open>hybridMatch\<close> during which the engine
  throws returns a match, and a match returned after an error was logged is the default
  match.
\<close>

theorem engine_error_is_caught:
  "(below (matchRequest sv request) 0.6 \<and> below (detectIntent sv request) 0.4
      \<and> processWithSequentialThinking parse replies = Some (n, Inl e)
    \<longrightarrow> hybridMatch sv parse lower replies request =
          Some ([RuleMatcherCalled, IntentDetectorCalled, EngineCalled n, ErrorLogged e],
                default_match request))
   \<and> (below (matchRequest sv request) 0.6 \<and> below (detectIntent sv request) 0.4
      \<and> (\<forall>i<k. continues parse replies i)
      \<and> (replies k = AxiosFailure a \<or> replies k = OtherFailure s \<or> replies k = NoChoices)
    \<longrightarrow> (\<exists>e'. getNextThought parse (replies k) = Inl e'
          \<and> hybridMatch sv parse lower replies request =
              Some ([RuleMatcherCalled, IntentDetectorCalled, EngineCalled (Suc k),
                     ErrorLogged e'],
                    default_match request)))
   \<and> (processWithSequentialThinking parse replies = Some (n, Inl e)
    \<longrightarrow> (\<exists>evs' r'. hybridMatch sv parse lower replies request = Some (evs', r')))
   \<and> (hybridMatch sv parse lower replies request = Some (evs, r) \<and> EngineCalled n \<in> set evs
    \<longrightarrow> below (matchRequest sv request) 0.6 \<and> below (detectIntent sv request) 0.4)
   \<and> (hybridMatch sv parse lower replies request = Some (evs, r) \<and> ErrorLogged e \<in> set evs
    \<longrightarrow> r = default_match request
          \<and> (\<exists>n'. processWithSequentialThinking parse replies = Some (n', Inl e)))"
proof (intro conjI impI)
  assume h: "below (matchRequest sv request) 0.6 \<and> below (detectIntent sv request) 0.4
      \<and> processWithSequentialThinking parse replies = Some (n, Inl e)"
  then have d: "below (matchRequest sv request) 0.6" "below (detectIntent sv request) 0.4"
    and p: "processWithSequentialThinking parse replies = Some (n, Inl e)"
    by simp_all
  from step3_on_error[OF p, of sv lower request "[RuleMatcherCalled, IntentDetectorCalled]"]
  show "hybridMatch sv parse lower replies request =
          Some ([RuleMatcherCalled, IntentDetectorCalled, EngineCalled n, ErrorLogged e],
                default_match request)"
    by (simp add: hybridMatch_declined[OF d])
next
  assume h: "below (matchRequest sv request) 0.6 \<and> below (detectIntent sv request) 0.4
      \<and> (\<forall>i<k. continues parse replies i)
      \<and> (replies k = AxiosFailure a \<or> replies k = OtherFailure s \<or> replies k = NoChoices)"
  then have d: "below (matchRequest sv request) 0.6" "below (detectIntent sv request) 0.4"
    and c: "\<forall>i<k. continues parse replies i"
    and f: "replies k = AxiosFailure a \<or> replies k = OtherFailure s \<or> replies k = NoChoices"
    by simp_all
  from f obtain e' where g: "getNextThought parse (replies k) = Inl e'"
    by (auto simp: getNextThought_def)
  from step3_on_error[OF process_throws[OF c g], of sv lower request
      "[RuleMatcherCalled, IntentDetectorCalled]"] g
  show "\<exists>e'. getNextThought parse (replies k) = Inl e'
          \<and> hybridMatch sv parse lower replies request =
              Some ([RuleMatcherCalled, IntentDetectorCalled, EngineCalled (Suc k),
                     ErrorLogged e'],
                    default_match request)"
    by (simp add: hybridMatch_declined[OF d])
next
  assume p: "processWithSequentialThinking parse replies = Some (n, Inl e)"
  have s: "hybridMatch_step3 sv parse lower replies request
             [RuleMatcherCalled, IntentDetectorCalled]
      = Some ([RuleMatcherCalled, IntentDetectorCalled, EngineCalled n, ErrorLogged e],
              default_match request)"
    using step3_on_error[OF p, of sv lower request "[RuleMatcherCalled, IntentDetectorCalled]"]
    by simp
  show "\<exists>evs' r'. hybridMatch sv parse lower replies request = Some (evs', r')"
    by (auto simp: hybridMatch_def hybridMatch_step2_def s split: option.splits)
next
  assume h: "hybridMatch sv parse lower replies request = Some (evs, r)
             \<and> EngineCalled n \<in> set evs"
  then show "below (matchRequest sv request) 0.6"
    by (auto simp: hybridMatch_def hybridMatch_step2_def below_def MEDIUM_CONFIDENCE_def
        LOW_CONFIDENCE_def split: option.splits if_splits)
  from h show "below (detectIntent sv request) 0.4"
    by (auto simp: hybridMatch_def hybridMatch_step2_def below_def MEDIUM_CONFIDENCE_def
        LOW_CONFIDENCE_def split: option.splits if_splits)
next
  assume h: "hybridMatch sv parse lower replies request = Some (evs, r)
             \<and> ErrorLogged e \<in> set evs"
  then obtain evs0 where s: "hybridMatch_step3 sv parse lower replies request evs0 = Some (evs, r)"
    and e0: "ErrorLogged e \<notin> set evs0"
    by (auto simp: hybridMatch_def hybridMatch_step2_def split: option.splits if_splits)
  from s e0 h show "r = default_match request"
    by (auto simp: hybridMatch_step3_def Let_def split: option.splits sum.splits if_splits)
  from s e0 h show "\<exists>n'. processWithSequentialThinking parse replies = Some (n', Inl e)"
    by (auto simp: hybridMatch_step3_def performSequentialThinking_def Let_def
        split: option.splits sum.splits if_splits)
qed

theorem engine_error_is_caught_witness:
  "below (matchRequest hesitant_services (u ''plan the sprint'')) 0.6
   \<and> below (detectIntent hesitant_services (u ''plan the sprint'')) 0.4
   \<and> continues sample_parse overloaded_replies 0
   \<and> overloaded_replies 1 = AxiosFailure (Some (503, Some (quoted (u ''overloaded''))))
   \<and> hybridMatch hesitant_services sample_parse ascii_lower overloaded_replies
        (u ''plan the sprint'')
     = Some ([RuleMatcherCalled, IntentDetectorCalled, EngineCalled 2,
              ErrorLogged (Error (u ''API error: 503 - '' @ quoted (u ''overloaded'')))],
             \<lparr>toolName = u ''research-manager'', confidence = 0.2,
              matchedPattern = Some (u ''fallback''),
              parameters = [u ''query'' \<mapsto> u ''plan the sprint''],
              matchMethod = Sequential, requiresConfirmation = True\<rparr>)"
proof -
  have c0: "continues sample_parse overloaded_replies 0"
    by (simp add: continues_def overloaded_replies_def sample_first)
  then have c: "\<forall>i<1. continues sample_parse overloaded_replies i" by simp
  have f: "overloaded_replies 1 = AxiosFailure (Some (503, Some (quoted (u ''overloaded''))))"
    by (simp add: overloaded_replies_def)
  have g: "getNextThought sample_parse (overloaded_replies 1)
      = Inl (Error (u ''API error: 503 - '' @ quoted (u ''overloaded'')))"
    by (simp add: getNextThought_def overloaded_replies_def show_status_def show_data_def
        show_nat_digits u_def)
  from engine_error_is_caught
         [of hesitant_services "u ''plan the sprint''" sample_parse overloaded_replies
             _ _ ascii_lower 1 "Some (503, Some (quoted (u ''overloaded'')))"]
    hesitant_below[of "u ''plan the sprint''"] c f
  obtain e' where "getNextThought sample_parse (overloaded_replies 1) = Inl e'"
    and "hybridMatch hesitant_services sample_parse ascii_lower overloaded_replies
           (u ''plan the sprint'')
         = Some ([RuleMatcherCalled, IntentDetectorCalled, EngineCalled (Suc 1),
                  ErrorLogged e'],
                 default_match (u ''plan the sprint''))"
    by blast
  with g have "hybridMatch hesitant_services sample_parse ascii_lower overloaded_replies
        (u ''plan the sprint'')
     = Some ([RuleMatcherCalled, IntentDetectorCalled, EngineCalled 2,
              ErrorLogged (Error (u ''API error: 503 - '' @ quoted (u ''overloaded'')))],
             default_match (u ''plan the sprint''))"
    by simp
  with hesitant_below[of "u ''plan the sprint''"] c0 f show ?thesis
    by (simp add: default_match_def)
qed

text \<open>
  Claim C6. Whenever the rule matcher returns a candidate with confidence at least 0.6,
  \<open>hybridMatch\<close> returns that candidate with method \<open>rule\<close> and \<open>requiresConfirmation\<close> equal to
  (confidence below 0.8). Its parameters are those \<open>extractParameters\<close> gives for the matched
  pattern when that is a pattern other than \<open>description_match\<close>, and the empty mapping
  when the matched pattern is \<open>description_match\<close> or missing. The only collaborator
  called is the rule matcher: the result is the same whatever the intent detector and
  the model endpoint would do.
\<close>

theorem rule_stage_accepts:
  assumes "matchRequest sv request = Some m" and "confidence m \<ge> 0.6"
  shows "\<exists>ps. hybridMatch sv parse lower replies request =
           Some ([RuleMatcherCalled],
             \<lparr>toolName = toolName m, confidence = confidence m,
              matchedPattern = matchedPattern m, parameters = ps, matchMethod = Rule,
              requiresConfirmation = (confidence m < 0.8)\<rparr>)
         \<and> (\<forall>p. matchedPattern m = Some p \<and> p \<noteq> [] \<and> p \<noteq> u ''description_match''
                \<longrightarrow> ps = extractParameters sv request p)
         \<and> (matchedPattern m = None \<or> matchedPattern m = Some (u ''description_match'')
                \<longrightarrow> ps = Map.empty)
         \<and> (\<forall>d parse' lower' replies'.
               hybridMatch (sv\<lparr>detectIntent := d\<rparr>) parse' lower' replies' request
               = hybridMatch sv parse lower replies request)"
  using assms
  by (auto simp: hybridMatch_def MEDIUM_CONFIDENCE_def HIGH_CONFIDENCE_def
      split: option.splits)

theorem rule_stage_accepts_witness:
  "matchRequest research_services (u ''research the latest advancements in quantum computing'')
     = Some \<lparr>toolName = u ''research-manager'', confidence = 0.9,
             matchedPattern = Some (u ''research {topic}'')\<rparr>
   \<and> (0.9 :: number) \<ge> 0.6
   \<and> hybridMatch research_services sample_parse ascii_lower offline_replies
        (u ''research the latest advancements in quantum computing'')
     = Some ([RuleMatcherCalled],
         \<lparr>toolName = u ''research-manager'', confidence = 0.9,
          matchedPattern = Some (u ''research {topic}''),
          parameters = [u ''topic'' \<mapsto> u ''the latest advancements in quantum computing''],
          matchMethod = Rule, requiresConfirmation = False\<rparr>)"
proof -
  let ?req = "(u ''research the latest advancements in quantum computing'')"
  have m: "matchRequest research_services ?req
     = Some \<lparr>toolName = u ''research-manager'', confidence = 0.9,
             matchedPattern = Some (u ''research {topic}'')\<rparr>"
    by (simp add: research_services_def u_def)
  have x: "extractParameters research_services ?req (u ''research {topic}'')
     = [u ''topic'' \<mapsto> u ''the latest advancements in quantum computing'']"
    by (simp add: research_services_def u_def)
  from rule_stage_accepts[OF m, of sample_parse ascii_lower offline_replies] m x
  show ?thesis by auto
qed

text \<open>
  Claim C7, as the code has it. When the sequential stage is reached and the engine returns
  a string, the candidate tool name is the first line (the text before the first line
  feed) of the lower-cased, trimmed string with the text up to and including its first
  \<open>": "\<close> removed, unless a line terminator (CR, U+2028 or U+2029) stands before that
  \<open>": "\<close>, in which case nothing is removed. When the first line holds no line terminator
  this is the name the specification describes. The stage accepts exactly when the name
  contains \<open>generator\<close> or \<open>manager\<close>; the match then has that name as tool, confidence
  0.5, pattern \<open>sequential_thinking\<close>, \<open>requiresConfirmation\<close> true and the parameters of the
  context extraction. Otherwise the default match is returned.
\<close>

theorem sequential_stage_reads_tool_name:
  assumes "below (matchRequest sv request) 0.6"
    and "below (detectIntent sv request) 0.4"
    and "processWithSequentialThinking parse replies = Some (n, Inr answer)"
  shows "extract_tool_name lower answer = amended_tool_name lower answer
       \<and> (\<not> list_ex line_terminator (first_line (trim (lower answer))) \<longrightarrow>
            amended_tool_name lower answer = spec_tool_name lower answer)
       \<and> hybridMatch sv parse lower replies request =
           Some ([RuleMatcherCalled, IntentDetectorCalled, EngineCalled n],
             if str_includes (amended_tool_name lower answer) (u ''generator'')
                \<or> str_includes (amended_tool_name lower answer) (u ''manager'')
             then \<lparr>toolName = amended_tool_name lower answer, confidence = 0.5,
                   matchedPattern = Some (u ''sequential_thinking''),
                   parameters = extractContextParameters sv request,
                   matchMethod = Sequential, requiresConfirmation = True\<rparr>
             else default_match request)"
proof (intro conjI impI)
  show a: "extract_tool_name lower answer = amended_tool_name lower answer"
    by (rule extract_tool_name_amended)
  show "amended_tool_name lower answer = spec_tool_name lower answer"
    if "\<not> list_ex line_terminator (first_line (trim (lower answer)))"
    using extract_tool_name_spec[of lower answer] that a by simp
  show "hybridMatch sv parse lower replies request =
           Some ([RuleMatcherCalled, IntentDetectorCalled, EngineCalled n],
             if str_includes (amended_tool_name lower answer) (u ''generator'')
                \<or> str_includes (amended_tool_name lower answer) (u ''manager'')
             then \<lparr>toolName = amended_tool_name lower answer, confidence = 0.5,
                   matchedPattern = Some (u ''sequential_thinking''),
                   parameters = extractContextParameters sv request,
                   matchMethod = Sequential, requiresConfirmation = True\<rparr>
             else default_match request)"
    using step3_on_answer[OF assms(3), of sv lower request
        "[RuleMatcherCalled, IntentDetectorCalled]"]
    by (simp add: hybridMatch_declined[OF assms(1,2)] a)
qed

lemma silent_context:
  "extractContextParameters silent_services request = [u ''query'' \<mapsto> request]"
  by (simp add: silent_services_def)

lemma sample_prefixed: "sample_parse (u ''  Tool: PRD-Generator'') = None"
  by (simp add: sample_parse_def first_text_def second_text_def final_text_def
      partial_text_def thought_text_def quoted_def u_def)

lemma prefixed_line:
  "first_line (trim (ascii_lower (u ''  Tool: PRD-Generator''))) = u ''tool: prd-generator''"
  by (simp add: first_line_def trim_def ascii_lower_def is_space_def white_space_def
      line_terminator_def u_def)

lemma prefixed_name:
  "amended_tool_name ascii_lower (u ''  Tool: PRD-Generator'') = u ''prd-generator''"
  by (simp add: amended_tool_name_def amended_strip_label_def prefixed_line)
     (simp add: line_terminator_def u_def)

theorem sequential_stage_reads_tool_name_witness:
  "below (matchRequest silent_services (u ''write down the requirements'')) 0.6
   \<and> below (detectIntent silent_services (u ''write down the requirements'')) 0.4
   \<and> processWithSequentialThinking sample_parse prefixed_replies
       = Some (1, Inr (u ''  Tool: PRD-Generator''))
   \<and> \<not> list_ex line_terminator
         (first_line (trim (ascii_lower (u ''  Tool: PRD-Generator''))))
   \<and> spec_tool_name ascii_lower (u ''  Tool: PRD-Generator'') = u ''prd-generator''
   \<and> hybridMatch silent_services sample_parse ascii_lower prefixed_replies
        (u ''write down the requirements'')
       = Some ([RuleMatcherCalled, IntentDetectorCalled, EngineCalled 1],
           \<lparr>toolName = u ''prd-generator'', confidence = 0.5,
            matchedPattern = Some (u ''sequential_thinking''),
            parameters = [u ''query'' \<mapsto> u ''write down the requirements''],
            matchMethod = Sequential, requiresConfirmation = True\<rparr>)"
proof -
  have p: "processWithSequentialThinking sample_parse prefixed_replies
       = Some (1, Inr (u ''  Tool: PRD-Generator''))"
    by (rule process_raw_answer) (simp_all add: prefixed_replies_def sample_prefixed)
  have lt: "\<not> list_ex line_terminator
         (first_line (trim (ascii_lower (u ''  Tool: PRD-Generator''))))"
    by (simp add: prefixed_line) (simp add: line_terminator_def u_def)
  have inc: "str_includes (u ''prd-generator'') (u ''generator'')"
    by (simp add: u_def)
  note t = sequential_stage_reads_tool_name
             [where lower = ascii_lower and request = "u ''write down the requirements''",
              OF silent_below p]
  note t2 = t[THEN conjunct2, THEN conjunct1, rule_format, OF lt]
  have s: "spec_tool_name ascii_lower (u ''  Tool: PRD-Generator'') = u ''prd-generator''"
    by (simp only: t2[symmetric] prefixed_name)
  from t[THEN conjunct2, THEN conjunct2] inc
  have "hybridMatch silent_services sample_parse ascii_lower prefixed_replies
        (u ''write down the requirements'')
       = Some ([RuleMatcherCalled, IntentDetectorCalled, EngineCalled 1],
           \<lparr>toolName = u ''prd-generator'', confidence = 0.5,
            matchedPattern = Some (u ''sequential_thinking''),
            parameters = [u ''query'' \<mapsto> u ''write down the requirements''],
            matchMethod = Sequential, requiresConfirmation = True\<rparr>)"
    by (simp add: prefixed_name silent_context)
  with silent_below[of "u ''write down the requirements''"] p lt s show ?thesis
    by simp
qed

lemma sample_carriage: "sample_parse carriage_answer = None"
  by (simp add: carriage_answer_def sample_parse_def first_text_def second_text_def
      final_text_def partial_text_def thought_text_def quoted_def u_def)

lemma carriage_name: "extract_tool_name ascii_lower carriage_answer = carriage_answer"
  by (simp add: extract_tool_name_def replace_label_def first_line_def trim_def
      ascii_lower_def is_space_def white_space_def line_terminator_def carriage_answer_def
      u_def)

lemma separator_name: "extract_tool_name ascii_lower separator_answer = separator_answer"
  by (simp add: extract_tool_name_def replace_label_def first_line_def trim_def
      ascii_lower_def is_space_def white_space_def line_terminator_def separator_answer_def
      u_def)

lemma carriage_run:
  "processWithSequentialThinking sample_parse carriage_replies = Some (1, Inr carriage_answer)"
  by (rule process_raw_answer) (simp_all add: carriage_replies_def sample_carriage)

text \<open>Claim C7 as stated fails: for the answer \<open>thinking\<close>, carriage return,
  \<open>answer: prd-generator\<close> the text up to the first \<open>": "\<close> is not removed, and the tool
  name of the accepted match is the whole line, not \<open>prd-generator\<close>.\<close>

theorem label_kept_after_carriage_return:
  "hybridMatch silent_services sample_parse ascii_lower carriage_replies
       (u ''write down the requirements'')
     = Some ([RuleMatcherCalled, IntentDetectorCalled, EngineCalled 1],
         \<lparr>toolName = u ''thinking'' @ [0x0D] @ u ''answer: prd-generator'', confidence = 0.5,
          matchedPattern = Some (u ''sequential_thinking''),
          parameters = [u ''query'' \<mapsto> u ''write down the requirements''],
          matchMethod = Sequential, requiresConfirmation = True\<rparr>)
   \<and> spec_tool_name ascii_lower (u ''thinking'' @ [0x0D] @ u ''answer: prd-generator'')
       = u ''prd-generator''
   \<and> u ''thinking'' @ [0x0D] @ u ''answer: prd-generator'' \<noteq> u ''prd-generator''"
proof -
  have i: "str_includes (extract_tool_name ascii_lower carriage_answer) (u ''generator'')"
    by (simp add: carriage_name) (simp add: carriage_answer_def u_def)
  have s: "spec_tool_name ascii_lower carriage_answer = u ''prd-generator''"
    by (simp add: spec_tool_name_def spec_strip_label_def first_line_def trim_def
        ascii_lower_def is_space_def white_space_def line_terminator_def carriage_answer_def
        u_def)
  have n: "carriage_answer \<noteq> u ''prd-generator''"
    by (simp add: carriage_answer_def u_def)
  have "hybridMatch silent_services sample_parse ascii_lower carriage_replies
       (u ''write down the requirements'')
     = Some ([RuleMatcherCalled, IntentDetectorCalled, EngineCalled 1],
         \<lparr>toolName = carriage_answer, confidence = 0.5,
          matchedPattern = Some (u ''sequential_thinking''),
          parameters = [u ''query'' \<mapsto> u ''write down the requirements''],
          matchMethod = Sequential, requiresConfirmation = True\<rparr>)"
    using step3_on_answer[OF carriage_run, of silent_services ascii_lower
        "u ''write down the requirements''" "[RuleMatcherCalled, IntentDetectorCalled]"] i
    by (simp add: hybridMatch_declined[OF silent_below] carriage_name silent_context)
  with s n show ?thesis by (simp add: carriage_answer_def)
qed

text \<open>
  Claim C10, as the code has it. Some answers of the engine make \<open>hybridMatch\<close> return a tool
  name that is none of the six identifiers its prompt offers: the answer \<open>Asset-Manager\<close>
  is accepted as \<open>asset-manager\<close> with confidence 0.5. In general, when the sequential stage
  is reached, a first line of the lower-cased, trimmed answer that has no \<open>": "\<close> in it and
  contains \<open>generator\<close> or \<open>manager\<close> is accepted as it is, as tool name with confidence 0.5.
  A first line with a \<open>": "\<close> is put to the same test after the label removal of claim C7
  (the text after the first \<open>": "\<close>, or the whole line when a line terminator stands before
  that \<open>": "\<close>), and what is left is the tool name. So the accepted tool name need not be
  a registered tool.
\<close>

theorem sequential_stage_accepts_unregistered_names:
  "(below (matchRequest sv request) 0.6 \<and> below (detectIntent sv request) 0.4
      \<and> processWithSequentialThinking parse replies = Some (n, Inr answer)
      \<and> \<not> str_includes (first_line (trim (lower answer))) (u '': '')
      \<and> (str_includes (first_line (trim (lower answer))) (u ''generator'')
           \<or> str_includes (first_line (trim (lower answer))) (u ''manager''))
    \<longrightarrow> (\<exists>evs r. hybridMatch sv parse lower replies request = Some (evs, r)
            \<and> toolName r = first_line (trim (lower answer)) \<and> confidence r = 0.5
            \<and> matchedPattern r = Some (u ''sequential_thinking'')))
   \<and> (below (matchRequest sv request) 0.6 \<and> below (detectIntent sv request) 0.4
      \<and> processWithSequentialThinking parse replies = Some (n, Inr answer)
      \<and> (str_includes (amended_tool_name lower answer) (u ''generator'')
           \<or> str_includes (amended_tool_name lower answer) (u ''manager''))
    \<longrightarrow> (\<exists>evs r. hybridMatch sv parse lower replies request = Some (evs, r)
            \<and> toolName r = amended_tool_name lower answer \<and> confidence r = 0.5
            \<and> matchedPattern r = Some (u ''sequential_thinking'')))
   \<and> (lower (u ''Asset-Manager'') = u ''asset-manager''
    \<longrightarrow> (\<exists>evs r. hybridMatch silent_services sample_parse lower asset_replies
                    (u ''track my assets'') = Some (evs, r)
            \<and> toolName r = u ''asset-manager'' \<and> confidence r = 0.5
            \<and> toolName r \<notin> set prompt_tools))"
proof (intro conjI impI)
  assume h: "below (matchRequest sv request) 0.6 \<and> below (detectIntent sv request) 0.4
      \<and> processWithSequentialThinking parse replies = Some (n, Inr answer)
      \<and> \<not> str_includes (first_line (trim (lower answer))) (u '': '')
      \<and> (str_includes (first_line (trim (lower answer))) (u ''generator'')
           \<or> str_includes (first_line (trim (lower answer))) (u ''manager''))"
  then have p: "processWithSequentialThinking parse replies = Some (n, Inr answer)"
    and d: "below (matchRequest sv request) 0.6" "below (detectIntent sv request) 0.4"
    and nl: "\<not> str_includes (first_line (trim (lower answer))) (u '': '')"
    by simp_all
  from no_label_kept[OF nl]
  have e: "extract_tool_name lower answer = first_line (trim (lower answer))"
    by (simp add: extract_tool_name_def)
  from step3_on_answer[OF p, of sv lower request "[RuleMatcherCalled, IntentDetectorCalled]"] h
  show "\<exists>evs r. hybridMatch sv parse lower replies request = Some (evs, r)
            \<and> toolName r = first_line (trim (lower answer)) \<and> confidence r = 0.5
            \<and> matchedPattern r = Some (u ''sequential_thinking'')"
    by (simp add: hybridMatch_declined[OF d] e)
next
  assume h: "below (matchRequest sv request) 0.6 \<and> below (detectIntent sv request) 0.4
      \<and> processWithSequentialThinking parse replies = Some (n, Inr answer)
      \<and> (str_includes (amended_tool_name lower answer) (u ''generator'')
           \<or> str_includes (amended_tool_name lower answer) (u ''manager''))"
  then have p: "processWithSequentialThinking parse replies = Some (n, Inr answer)"
    and d: "below (matchRequest sv request) 0.6" "below (detectIntent sv request) 0.4"
    by simp_all
  from step3_on_answer[OF p, of sv lower request "[RuleMatcherCalled, IntentDetectorCalled]"] h
  show "\<exists>evs r. hybridMatch sv parse lower replies request = Some (evs, r)
            \<and> toolName r = amended_tool_name lower answer \<and> confidence r = 0.5
            \<and> matchedPattern r = Some (u ''sequential_thinking'')"
    by (simp add: hybridMatch_declined[OF d] extract_tool_name_amended)
next
  assume l: "lower (u ''Asset-Manager'') = u ''asset-manager''"
  have "sample_parse (u ''Asset-Manager'') = None"
    by (simp add: sample_parse_def first_text_def second_text_def final_text_def
        partial_text_def thought_text_def quoted_def u_def)
  then have p: "processWithSequentialThinking sample_parse asset_replies
         = Some (1, Inr (u ''Asset-Manager''))"
    by (rule process_raw_answer) (simp add: asset_replies_def)
  have e: "extract_tool_name lower (u ''Asset-Manager'') = u ''asset-manager''"
    by (simp add: extract_tool_name_def l)
       (simp add: replace_label_def first_line_def trim_def is_space_def white_space_def
          line_terminator_def u_def)
  have i: "str_includes (u ''asset-manager'') (u ''manager'')"
    by (simp add: u_def)
  have o: "u ''asset-manager'' \<notin> set prompt_tools"
    by (simp add: prompt_tools_def)
  from step3_on_answer[OF p, of silent_services lower "u ''track my assets''"
      "[RuleMatcherCalled, IntentDetectorCalled]"] i o
  show "\<exists>evs r. hybridMatch silent_services sample_parse lower asset_replies
                    (u ''track my assets'') = Some (evs, r)
            \<and> toolName r = u ''asset-manager'' \<and> confidence r = 0.5
            \<and> toolName r \<notin> set prompt_tools"
    by (simp add: hybridMatch_declined[OF silent_below] e)
qed

theorem sequential_stage_accepts_unregistered_names_witness:
  "below (matchRequest hesitant_services (u ''plan the sprint'')) 0.6
   \<and> below (detectIntent hesitant_services (u ''plan the sprint'')) 0.4
   \<and> processWithSequentialThinking sample_parse two_round_replies
       = Some (2, Inr (u ''task-list-generator''))
   \<and> \<not> str_includes (first_line (trim (ascii_lower (u ''task-list-generator'')))) (u '': '')
   \<and> str_includes (first_line (trim (ascii_lower (u ''task-list-generator''))))
        (u ''generator'')
   \<and> (\<exists>evs r. hybridMatch hesitant_services sample_parse ascii_lower two_round_replies
                  (u ''plan the sprint'') = Some (evs, r)
         \<and> toolName r = u ''task-list-generator'' \<and> confidence r = 0.5
         \<and> matchedPattern r = Some (u ''sequential_thinking''))
   \<and> ascii_lower (u ''Asset-Manager'') = u ''asset-manager''
   \<and> (\<exists>evs r. hybridMatch silent_services sample_parse ascii_lower asset_replies
                  (u ''track my assets'') = Some (evs, r)
         \<and> toolName r = u ''asset-manager'' \<and> confidence r = 0.5
         \<and> toolName r \<notin> set prompt_tools)"
proof -
  have c: "\<forall>i<1. continues sample_parse two_round_replies i"
    by (simp add: continues_def two_round_replies_def sample_first)
  have "getNextThought sample_parse (two_round_replies 1) =
     Inr \<lparr>thought = u ''task-list-generator'', next_thought_needed = False,
          thought_number = 2, total_thoughts = 1, is_revision = None,
          revises_thought = None, branch_from_thought = None, branch_id = None,
          needs_more_thoughts = None\<rparr>"
    by (simp add: two_round_replies_def sample_final)
  from process_returns[OF c this]
  have p: "processWithSequentialThinking sample_parse two_round_replies
       = Some (2, Inr (u ''task-list-generator''))"
    by (simp add: numeral_2_eq_2)
  have fl: "first_line (trim (ascii_lower (u ''task-list-generator'')))
          = u ''task-list-generator''"
    by (simp add: first_line_def trim_def ascii_lower_def is_space_def white_space_def
        line_terminator_def u_def)
  have nl: "\<not> str_includes (first_line (trim (ascii_lower (u ''task-list-generator''))))
              (u '': '')"
    by (simp add: fl) (simp add: u_def)
  have i: "str_includes (first_line (trim (ascii_lower (u ''task-list-generator''))))
             (u ''generator'')"
    by (simp add: fl) (simp add: u_def)
  note t = sequential_stage_accepts_unregistered_names
         [of hesitant_services "u ''plan the sprint''" sample_parse two_round_replies 2
             "u ''task-list-generator''" ascii_lower]
  from t[THEN conjunct1] hesitant_below[of "u ''plan the sprint''"] p nl i
  have a: "\<exists>evs r. hybridMatch hesitant_services sample_parse ascii_lower two_round_replies
                  (u ''plan the sprint'') = Some (evs, r)
         \<and> toolName r = u ''task-list-generator'' \<and> confidence r = 0.5
         \<and> matchedPattern r = Some (u ''sequential_thinking'')"
    by (simp add: fl)
  have l: "ascii_lower (u ''Asset-Manager'') = u ''asset-manager''"
    by (simp add: ascii_lower_def u_def)
  from t[THEN conjunct2, THEN conjunct2] l
  have b: "\<exists>evs r. hybridMatch silent_services sample_parse ascii_lower asset_replies
                  (u ''track my assets'') = Some (evs, r)
         \<and> toolName r = u ''asset-manager'' \<and> confidence r = 0.5
         \<and> toolName r \<notin> set prompt_tools"
    by blast
  from hesitant_below[of "u ''plan the sprint''"] p nl i a l b show ?thesis
    by blast
qed

text \<open>Claim C10 as stated fails: the first line \<open>manager: foo\<close> contains \<open>manager\<close>, yet it is
  not accepted: its label is removed first, \<open>foo\<close> is left, and the default match is
  returned.\<close>

theorem first_line_with_manager_label_is_rejected:
  "str_includes (first_line (ascii_lower (u ''manager: foo''))) (u ''manager'')
   \<and> hybridMatch silent_services sample_parse ascii_lower labelled_replies
        (u ''track my assets'')
     = Some ([RuleMatcherCalled, IntentDetectorCalled, EngineCalled 1],
         \<lparr>toolName = u ''research-manager'', confidence = 0.2,
          matchedPattern = Some (u ''fallback''),
          parameters = [u ''query'' \<mapsto> u ''track my assets''],
          matchMethod = Sequential, requiresConfirmation = True\<rparr>)"
proof -
  have a: "str_includes (first_line (ascii_lower (u ''manager: foo''))) (u ''manager'')"
    by (simp add: first_line_def ascii_lower_def u_def)
  have "sample_parse (u ''manager: foo'') = None"
    by (simp add: sample_parse_def first_text_def second_text_def final_text_def
        partial_text_def thought_text_def quoted_def u_def)
  then have p: "processWithSequentialThinking sample_parse labelled_replies
         = Some (1, Inr (u ''manager: foo''))"
    by (rule process_raw_answer) (simp add: labelled_replies_def)
  have e: "extract_tool_name ascii_lower (u ''manager: foo'') = u ''foo''"
    by (simp add: extract_tool_name_def replace_label_def first_line_def trim_def
        ascii_lower_def is_space_def white_space_def line_terminator_def u_def)
  have n: "\<not> str_includes (u ''foo'') (u ''generator'')"
    "\<not> str_includes (u ''foo'') (u ''manager'')"
    by (simp_all add: u_def)
  from step3_on_answer[OF p, of silent_services ascii_lower "u ''track my assets''"
      "[RuleMatcherCalled, IntentDetectorCalled]"] a n
  show ?thesis
    by (simp add: hybridMatch_declined[OF silent_below] e default_match_def)
qed

end
